theory Spec2Isabelle
  imports Complex_Main "HOL-Library.Word"
begin

section \<open>Text-editor history (hook \<open>useTextEditor\<close>)\<close>

text \<open>
  The hook keeps a \<open>HistoryState\<close> in React state and two refs: \<open>debounceTimer\<close>
  (a timer handle or \<open>null\<close>) and \<open>pendingText\<close> (a string or \<open>null\<close>).
  Every callback is modelled as a function from the state before the call to the
  state after it.  The timer handle carries no information beyond being set, so the
  ref is a \<open>bool\<close>: \<open>True\<close> when a timer is armed.  \<open>maxHistory\<close> is a count of
  entries and is a natural number here.
\<close>

record HistoryState =
  past :: "string list"
  present :: string
  future :: "string list"

record editor =
  history :: HistoryState
  debounceTimer :: bool
  pendingText :: "string option"

text \<open>The initial value handed to \<open>useState\<close> and \<open>useRef\<close>.\<close>

definition initial_editor :: "string \<Rightarrow> editor" where
  "initial_editor initialText =
     \<lparr>history = \<lparr>past = [], present = initialText, future = []\<rparr>,
      debounceTimer = False, pendingText = None\<rparr>"

text \<open>
  \<open>newPast = [...prev.past, prev.present]; if (newPast.length > maxHistory) newPast.shift()\<close>,
  shared by \<open>commitChange\<close> and \<open>setText\<close>.  \<open>shift\<close> drops the first (oldest) entry.
\<close>

definition push_limited :: "nat \<Rightarrow> HistoryState \<Rightarrow> string list" where
  "push_limited maxHistory prev =
     (let newPast = past prev @ [present prev]
      in if length newPast > maxHistory then tl newPast else newPast)"

text \<open>The updater passed to \<open>setHistory\<close> by \<open>commitChange\<close>.\<close>

definition commitChange :: "nat \<Rightarrow> string \<Rightarrow> HistoryState \<Rightarrow> HistoryState" where
  "commitChange maxHistory newText prev =
     (if newText = present prev then prev
      else \<lparr>past = push_limited maxHistory prev, present = newText, future = []\<rparr>)"

text \<open>
  The updater passed to \<open>setHistory\<close> by \<open>setText\<close>; \<open>alreadyPending\<close> is
  \<open>debounceTimer.current !== null\<close> as the updater reads it.
\<close>

definition setText_history :: "nat \<Rightarrow> bool \<Rightarrow> string \<Rightarrow> HistoryState \<Rightarrow> HistoryState" where
  "setText_history maxHistory alreadyPending newText prev =
     (if \<not> alreadyPending
      then \<lparr>past = push_limited maxHistory prev, present = newText, future = []\<rparr>
      else prev\<lparr>present := newText\<rparr>)"

text \<open>The updater of \<open>undo\<close>: \<open>newPast.pop()\<close> takes the last entry of the past.\<close>

definition undo_history :: "HistoryState \<Rightarrow> HistoryState" where
  "undo_history prev =
     (if length (past prev) = 0 then prev
      else \<lparr>past = butlast (past prev), present = last (past prev),
            future = present prev # future prev\<rparr>)"

text \<open>The updater of \<open>redo\<close>: \<open>newFuture.shift()\<close> takes the first entry of the future.\<close>

definition redo_history :: "HistoryState \<Rightarrow> HistoryState" where
  "redo_history prev =
     (if length (future prev) = 0 then prev
      else \<lparr>past = past prev @ [present prev], present = hd (future prev),
            future = tl (future prev)\<rparr>)"

text \<open>
  The callbacks of the hook.  \<open>setText\<close> records the pending text, hands its updater
  to \<open>setHistory\<close> and re-arms the 300 ms timer; \<open>alreadyPending\<close> is what the updater
  reads from \<open>debounceTimer\<close> when it runs.  \<open>undo\<close>, \<open>redo\<close> and \<open>reset\<close> first clear
  the timer and the pending text.  \<open>timer_fired\<close> is the callback given to
  \<open>setTimeout\<close>; a cleared timer never fires.
\<close>

definition setText :: "nat \<Rightarrow> bool \<Rightarrow> string \<Rightarrow> editor \<Rightarrow> editor" where
  "setText maxHistory alreadyPending newText e =
     \<lparr>history = setText_history maxHistory alreadyPending newText (history e),
      debounceTimer = True, pendingText = Some newText\<rparr>"

definition timer_fired :: "nat \<Rightarrow> editor \<Rightarrow> editor" where
  "timer_fired maxHistory e =
     (if \<not> debounceTimer e then e
      else case pendingText e of
             None \<Rightarrow> e
           | Some t \<Rightarrow> \<lparr>history = commitChange maxHistory t (history e),
                        debounceTimer = False, pendingText = None\<rparr>)"

definition undo :: "editor \<Rightarrow> editor" where
  "undo e = \<lparr>history = undo_history (history e), debounceTimer = False, pendingText = None\<rparr>"

definition redo :: "editor \<Rightarrow> editor" where
  "redo e = \<lparr>history = redo_history (history e), debounceTimer = False, pendingText = None\<rparr>"

definition reset :: "string \<Rightarrow> editor \<Rightarrow> editor" where
  "reset newText e =
     \<lparr>history = \<lparr>past = [], present = newText, future = []\<rparr>,
      debounceTimer = False, pendingText = None\<rparr>"

text \<open>
  What can happen to a mounted editor, and a run of such events from the initial
  state.  React runs an updater either at once, inside the call of \<open>setHistory\<close>, or
  at the next render.  In the first case (\<open>SetText\<close>) the updater of \<open>setText\<close> sees
  the timer as it was before the call; in the second (\<open>SetTextLate\<close>) the call has
  armed its timer by then, and the updater sees a timer.
\<close>

datatype editor_event =
  SetText string | SetTextLate string | TimerFired | Undo | Redo | Reset string

fun editor_step :: "nat \<Rightarrow> editor \<Rightarrow> editor_event \<Rightarrow> editor" where
  "editor_step maxHistory e (SetText t) = setText maxHistory (debounceTimer e) t e"
| "editor_step maxHistory e (SetTextLate t) = setText maxHistory True t e"
| "editor_step maxHistory e TimerFired = timer_fired maxHistory e"
| "editor_step maxHistory e Undo = undo e"
| "editor_step maxHistory e Redo = redo e"
| "editor_step maxHistory e (Reset t) = reset t e"

definition editor_run :: "nat \<Rightarrow> string \<Rightarrow> editor_event list \<Rightarrow> editor" where
  "editor_run maxHistory initialText evs =
     foldl (editor_step maxHistory) (initial_editor initialText) evs"

text \<open>
  The bound on the past alone is not preserved by \<open>redo\<close>, which appends without a
  limit check; the bound on past and future together is preserved by every callback.
\<close>

definition history_bounded :: "nat \<Rightarrow> HistoryState \<Rightarrow> bool" where
  "history_bounded m h = (length (past h) + length (future h) \<le> m)"

section \<open>Pixel buffers (class \<open>ImagePreprocessor\<close>)\<close>

text \<open>
  An \<open>ImageData\<close> has a width, a height and a \<open>Uint8ClampedArray\<close> of samples, four
  per pixel (R, G, B, A), row-major.  A sample is an 8-bit word.  The numbers of
  JavaScript are binary64 floating point numbers; the model holds them as real
  numbers.  Sums, differences and products of integers below \<open>2^53\<close>, such as pixel
  counts, are exact in binary64 and are written as they stand.  Where an operation
  rounds and a stored sample or a comparison depends on the outcome (the luminance
  of \<open>toGrayscale\<close>, the class means and variances of the Otsu scan), its result is
  passed through \<open>round_double\<close>.  The window means of \<open>adaptiveThreshold\<close> and the
  projection profiles of \<open>detectSkewAngle\<close> are left unrounded: what is proved of them
  holds of the rounded numbers as well.  A division whose divisor can be zero is written
  with \<open>js_div\<close>, or with \<open>double_div\<close> where the quotient is rounded: JavaScript answers
  it with \<open>Infinity\<close> or \<open>NaN\<close>, the model with \<open>None\<close>.
\<close>

type_synonym byte = "8 word"

record ImageData =
  width :: nat
  height :: nat
  data :: "byte list"

text \<open>The buffers the platform constructs hold four samples for each pixel.\<close>

definition well_formed :: "ImageData \<Rightarrow> bool" where
  "well_formed imageData = (length (data imageData) = 4 * (width imageData * height imageData))"

text \<open>
  Storing a number into a \<open>Uint8ClampedArray\<close>: clamp to 0..255 and round to the
  nearest integer, a tie going to the even one.
\<close>

definition round_half_even :: "real \<Rightarrow> int" where
  "round_half_even x =
     (let f = \<lfloor>x\<rfloor>; d = x - of_int f
      in if d < 1 / 2 then f else if 1 / 2 < d then f + 1 else if even f then f else f + 1)"

definition toUint8Clamp :: "real \<Rightarrow> byte" where
  "toUint8Clamp x = (if x \<le> 0 then 0 else if 255 \<le> x then 255 else of_int (round_half_even x))"

text \<open>Reading a sample gives its value as a number, between 0 and 255.\<close>

definition sample :: "byte \<Rightarrow> real" where
  "sample v = real (unat v)"

definition js_div :: "real \<Rightarrow> real \<Rightarrow> real option" where
  "js_div a b = (if b = 0 then None else Some (a / b))"

subsection \<open>Rounding to binary64\<close>

text \<open>
  A binary64 number has a significand of 53 bits: between \<open>2^e\<close> and \<open>2^(e+1)\<close> the
  numbers are the multiples of \<open>2^(e-52)\<close>, and below \<open>2^(-1022)\<close> (the subnormal
  numbers) the multiples of \<open>2^(-1074)\<close>.  Every arithmetic operation, and the reading
  of a decimal literal, gives the number nearest to the exact result, a tie going
  to the even significand.  \<open>binade a\<close> is the exponent \<open>e\<close> for a magnitude \<open>a\<close>, found by
  halving or doubling \<open>a\<close> into \<open>[1, 2)\<close> and not below \<open>-1022\<close>.  No number of this
  program comes near \<open>2^1024\<close>, where binary64 overflows to \<open>Infinity\<close>.
\<close>

definition pow2 :: "int \<Rightarrow> real" where
  "pow2 e = (if 0 \<le> e then 2 ^ nat e else 1 / 2 ^ nat (- e))"

fun scale_down :: "nat \<Rightarrow> real \<Rightarrow> int \<Rightarrow> int" where
  "scale_down 0 a e = e"
| "scale_down (Suc n) a e = (if a < 2 then e else scale_down n (a / 2) (e + 1))"

fun scale_up :: "nat \<Rightarrow> real \<Rightarrow> int \<Rightarrow> int" where
  "scale_up 0 a e = e"
| "scale_up (Suc n) a e = (if 1 \<le> a then e else scale_up n (a * 2) (e - 1))"

definition binade :: "real \<Rightarrow> int" where
  "binade a = (if 1 \<le> a then scale_down 1023 a 0 else scale_up 1022 a 0)"

definition round_double :: "real \<Rightarrow> real" where
  "round_double x =
     (if x = 0 then 0
      else let ulp = pow2 (binade \<bar>x\<bar> - 52)
           in real_of_int (round_half_even (x / ulp)) * ulp)"

definition double_div :: "real \<Rightarrow> real \<Rightarrow> real option" where
  "double_div a b = (if b = 0 then None else Some (round_double (a / b)))"

subsection \<open>\<open>toGrayscale\<close>\<close>

text \<open>
  \<open>data[i] * 0.299 + data[i + 1] * 0.587 + data[i + 2] * 0.114\<close>: three literals,
  three products and two sums from left to right, each rounded to binary64.
\<close>

definition luminance :: "byte \<Rightarrow> byte \<Rightarrow> byte \<Rightarrow> real" where
  "luminance r g b =
     round_double
       (round_double (round_double (sample r * round_double 0.299) +
                      round_double (sample g * round_double 0.587)) +
        round_double (sample b * round_double 0.114))"

text \<open>
  The loop \<open>for (i = 0; i < data.length; i += 4)\<close> takes the samples four at a time
  and writes the rounded luminance over R, G and B.  The last three equations are
  the loop's last round on an array whose length is no multiple of four: a missing
  sample reads as \<open>undefined\<close>, the luminance is \<open>NaN\<close>, which is stored as 0, and
  a write past the end is ignored.
\<close>

fun toGrayscale_data :: "byte list \<Rightarrow> byte list" where
  "toGrayscale_data (r # g # b # a # rest) =
     (let avg = toUint8Clamp (luminance r g b) in avg # avg # avg # a # toGrayscale_data rest)"
| "toGrayscale_data [r, g, b] = (let avg = toUint8Clamp (luminance r g b) in [avg, avg, avg])"
| "toGrayscale_data [r, g] = [0, 0]"
| "toGrayscale_data [r] = [0]"
| "toGrayscale_data [] = []"

definition toGrayscale :: "ImageData \<Rightarrow> ImageData" where
  "toGrayscale imageData = imageData\<lparr>data := toGrayscale_data (data imageData)\<rparr>"

subsection \<open>\<open>calculateOtsuThreshold\<close>\<close>

text \<open>
  \<open>histogram[Math.floor(data[i])]++\<close> for every fourth sample, starting from 256
  zeros.
\<close>

fun build_histogram :: "byte list \<Rightarrow> nat list \<Rightarrow> nat list" where
  "build_histogram [] histogram = histogram"
| "build_histogram (r # rest) histogram =
     build_histogram (drop 3 rest) (histogram[unat r := Suc (histogram ! unat r)])"

definition histogram_sum :: "nat list \<Rightarrow> real" where
  "histogram_sum histogram = fold (\<lambda>i s. s + real i * real (histogram ! i)) [0..<256] 0"

text \<open>
  The scan \<open>for (t = 0; t < 256; t++)\<close> with its \<open>continue\<close> and \<open>break\<close>.  The
  argument \<open>sum_all\<close> is the source's \<open>sum\<close>; those after \<open>t\<close> are the loop's
  variables \<open>sumB\<close>, \<open>wB\<close>, \<open>maxVariance\<close> and \<open>threshold\<close>.  The result is \<open>None\<close> when a
  division by zero happens.  The weights and the sums are sums of counts and of
  products of a bin index with a count, hence exact; the two means
  \<open>sumB / wB\<close> and \<open>(sum - sumB) / wF\<close>, their difference and the three products of
  \<open>wB * wF * (mB - mF) * (mB - mF)\<close>, taken from left to right, are rounded.
\<close>

function otsu_scan ::
  "nat list \<Rightarrow> real \<Rightarrow> real \<Rightarrow> nat \<Rightarrow> real \<Rightarrow> real \<Rightarrow> real \<Rightarrow> nat \<Rightarrow> nat option" where
  "otsu_scan histogram totalPixels sum_all t sumB wB maxVariance threshold =
     (if t < 256 then
        let wB = wB + real (histogram ! t) in
        if wB = 0 then otsu_scan histogram totalPixels sum_all (t + 1) sumB wB maxVariance threshold
        else
          let wF = totalPixels - wB in
          if wF = 0 then Some threshold
          else
            let sumB = sumB + real t * real (histogram ! t) in
            case double_div sumB wB of
              None \<Rightarrow> None
            | Some mB \<Rightarrow>
                (case double_div (sum_all - sumB) wF of
                   None \<Rightarrow> None
                 | Some mF \<Rightarrow>
                     let variance =
                       round_double
                         (round_double (round_double (wB * wF) * round_double (mB - mF)) *
                          round_double (mB - mF)) in
                     if variance > maxVariance
                     then otsu_scan histogram totalPixels sum_all (t + 1) sumB wB variance t
                     else otsu_scan histogram totalPixels sum_all (t + 1) sumB wB maxVariance threshold)
      else Some threshold)"
  by pat_completeness auto
termination
  by (relation "measure (\<lambda>(histogram, totalPixels, sum_all, t, rest). 256 - t)") auto

definition calculateOtsuThreshold :: "ImageData \<Rightarrow> nat option" where
  "calculateOtsuThreshold imageData =
     (let histogram = build_histogram (data imageData) (replicate 256 0);
          totalPixels = real (length (data imageData)) / 4;
          sum_all = histogram_sum histogram
      in otsu_scan histogram totalPixels sum_all 0 0 0 0 0)"

subsection \<open>\<open>threshold\<close>\<close>

text \<open>
  \<open>value = gray > threshold ? 255 : 0\<close>, written over R, G and B of every pixel; as
  in \<open>toGrayscale_data\<close> the last equations are the loop's last round on a short tail.
\<close>

fun threshold_data :: "real \<Rightarrow> byte list \<Rightarrow> byte list" where
  "threshold_data t (gray # g # b # a # rest) =
     (let v = (if sample gray > t then 255 else 0) in v # v # v # a # threshold_data t rest)"
| "threshold_data t [gray, g, b] = (let v = (if sample gray > t then 255 else 0) in [v, v, v])"
| "threshold_data t [gray, g] = (let v = (if sample gray > t then 255 else 0) in [v, v])"
| "threshold_data t [gray] = (let v = (if sample gray > t then 255 else 0) in [v])"
| "threshold_data t [] = []"

text \<open>
  \<open>thresholdValue ?? this.calculateOtsuThreshold(imageData)\<close>: the Otsu value is
  computed only when no value is given.
\<close>

definition threshold :: "ImageData \<Rightarrow> real option \<Rightarrow> ImageData option" where
  "threshold imageData thresholdValue =
     (case (case thresholdValue of
              Some v \<Rightarrow> Some v
            | None \<Rightarrow> map_option real (calculateOtsuThreshold imageData)) of
        None \<Rightarrow> None
      | Some t \<Rightarrow> Some (imageData\<lparr>data := threshold_data t (data imageData)\<rparr>))"

text \<open>
  The weights the scan holds at a candidate \<open>t\<close>, as functions of the histogram:
  \<open>wB\<close> is the number of pixels in the bins up to \<open>t\<close>, \<open>wF\<close> the rest.  A candidate
  is valid when both are non-zero.
\<close>

definition background_weight :: "nat list \<Rightarrow> nat \<Rightarrow> real" where
  "background_weight histogram t = real (sum_list (take (Suc t) histogram))"

definition valid_candidate :: "nat list \<Rightarrow> real \<Rightarrow> nat \<Rightarrow> bool" where
  "valid_candidate histogram totalPixels t =
     (background_weight histogram t \<noteq> 0 \<and> totalPixels - background_weight histogram t \<noteq> 0)"

subsection \<open>\<open>adaptiveThreshold\<close> and the integral image\<close>

text \<open>\<open>data[(y * width + x) * 4]\<close>: the R sample of the pixel in row \<open>y\<close>, column \<open>x\<close>.\<close>

definition px :: "ImageData \<Rightarrow> nat \<Rightarrow> nat \<Rightarrow> real" where
  "px imageData y x = sample (data imageData ! ((y * width imageData + x) * 4))"

text \<open>
  \<open>computeIntegralImage\<close>: a \<open>Float64Array\<close> of \<open>(width + 1) * (height + 1)\<close> zeros,
  filled row by row.  \<open>integral_step\<close> is the body of the inner loop, on the running
  \<open>rowSum\<close> and the array; \<open>integral_row\<close> is the inner loop over \<open>x\<close> for one \<open>y\<close>.
\<close>

definition integral_step ::
  "ImageData \<Rightarrow> nat \<Rightarrow> nat \<Rightarrow> real \<times> real list \<Rightarrow> real \<times> real list" where
  "integral_step imageData y =
     (\<lambda>x (rowSum, integral).
        let rowSum = rowSum + px imageData y x
        in (rowSum,
            integral[(y + 1) * (width imageData + 1) + (x + 1) :=
              rowSum + integral ! (y * (width imageData + 1) + (x + 1))]))"

definition integral_row :: "ImageData \<Rightarrow> nat \<Rightarrow> real list \<Rightarrow> real list" where
  "integral_row imageData y integral =
     snd (fold (integral_step imageData y) [0..<width imageData] (0, integral))"

definition computeIntegralImage :: "ImageData \<Rightarrow> real list" where
  "computeIntegralImage imageData =
     fold (integral_row imageData) [0..<height imageData]
       (replicate ((width imageData + 1) * (height imageData + 1)) 0)"

definition getIntegralSum :: "real list \<Rightarrow> nat \<Rightarrow> nat \<Rightarrow> nat \<Rightarrow> nat \<Rightarrow> nat \<Rightarrow> real" where
  "getIntegralSum integral x1 y1 x2 y2 width_arg =
     (let w = width_arg + 1
      in integral ! ((y2 + 1) * w + (x2 + 1)) - integral ! (y1 * w + (x2 + 1))
         - integral ! ((y2 + 1) * w + x1) + integral ! (y1 * w + x1))"

text \<open>
  The body of the two loops of \<open>adaptiveThreshold\<close> for the pixel \<open>(x, y)\<close>, writing
  into \<open>output\<close>.  \<open>Math.max(0, x - half)\<close> is the subtraction of natural numbers,
  which stops at 0.  Inside the loops \<open>x < width\<close> and \<open>y < height\<close>, so \<open>x1 \<le> x2\<close>,
  \<open>y1 \<le> y2\<close> and \<open>count\<close> is at least 1.
\<close>

definition adaptive_pixel ::
  "ImageData \<Rightarrow> real list \<Rightarrow> nat \<Rightarrow> real \<Rightarrow> nat \<Rightarrow> nat \<Rightarrow> byte list \<Rightarrow> byte list" where
  "adaptive_pixel imageData integral half c y x output =
     (let x1 = x - half;
          y1 = y - half;
          x2 = min (width imageData - 1) (x + half);
          y2 = min (height imageData - 1) (y + half);
          count = (x2 - x1 + 1) * (y2 - y1 + 1);
          total = getIntegralSum integral x1 y1 x2 y2 (width imageData);
          mean = total / real count - c;
          idx = (y * width imageData + x) * 4;
          v = (if px imageData y x > mean then 255 else 0)
      in output[idx := v, idx + 1 := v, idx + 2 := v])"

text \<open>
  \<open>blockSize\<close> is a window size and a natural number here; \<open>c\<close> is any number.
  The output starts as a copy of the input samples.
\<close>

definition adaptiveThreshold :: "ImageData \<Rightarrow> nat \<Rightarrow> real \<Rightarrow> ImageData" where
  "adaptiveThreshold imageData blockSize c =
     (let half = blockSize div 2;
          integral = computeIntegralImage imageData;
          output = fold (\<lambda>y output.
                     fold (\<lambda>x output. adaptive_pixel imageData integral half c y x output)
                       [0..<width imageData] output)
                     [0..<height imageData] (data imageData)
      in \<lparr>width = width imageData, height = height imageData, data = output\<rparr>)"

subsection \<open>The naive adaptive threshold of the specification\<close>

text \<open>
  Written from the specification, not from the source: for each pixel, visit every
  pixel of its \<open>blockSize \<times> blockSize\<close> neighbourhood, the window clamped to
  \<open>[0, width - 1] \<times> [0, height - 1]\<close>, add up the luminance and count the pixels
  visited; the mean is their quotient, and \<open>out = (pixel > mean - c) ? 255 : 0\<close>.
\<close>

definition naive_window_sum :: "ImageData \<Rightarrow> nat \<Rightarrow> nat \<Rightarrow> nat \<Rightarrow> real \<times> nat" where
  "naive_window_sum imageData half y x =
     fold (\<lambda>yy acc.
        fold (\<lambda>xx (total, count). (total + px imageData yy xx, count + 1))
          [x - half..<Suc (min (width imageData - 1) (x + half))] acc)
       [y - half..<Suc (min (height imageData - 1) (y + half))] (0, 0)"

definition naive_pixel ::
  "ImageData \<Rightarrow> nat \<Rightarrow> real \<Rightarrow> nat \<Rightarrow> nat \<Rightarrow> byte list \<Rightarrow> byte list" where
  "naive_pixel imageData half c y x output =
     (let (total, count) = naive_window_sum imageData half y x;
          mean = total / real count;
          idx = (y * width imageData + x) * 4;
          v = (if px imageData y x > mean - c then 255 else 0)
      in output[idx := v, idx + 1 := v, idx + 2 := v])"

definition adaptiveThreshold_naive :: "ImageData \<Rightarrow> nat \<Rightarrow> real \<Rightarrow> ImageData" where
  "adaptiveThreshold_naive imageData blockSize c =
     (let half = blockSize div 2;
          output = fold (\<lambda>y output.
                     fold (\<lambda>x output. naive_pixel imageData half c y x output)
                       [0..<width imageData] output)
                     [0..<height imageData] (data imageData)
      in \<lparr>width = width imageData, height = height imageData, data = output\<rparr>)"

text \<open>
  The sums that the integral image stores: the luminance of the first \<open>c\<close> pixels of
  row \<open>y\<close>, and of the rectangle of the first \<open>r\<close> rows and first \<open>c\<close> columns.
\<close>

definition row_sum :: "ImageData \<Rightarrow> nat \<Rightarrow> nat \<Rightarrow> real" where
  "row_sum imageData y c = (\<Sum>xx<c. px imageData y xx)"

definition area_sum :: "ImageData \<Rightarrow> nat \<Rightarrow> nat \<Rightarrow> real" where
  "area_sum imageData r c = (\<Sum>yy<r. row_sum imageData yy c)"

text \<open>The index of row \<open>r\<close>, column \<open>c\<close> in the integral image of an image \<open>w\<close> wide.\<close>

definition cell :: "nat \<Rightarrow> nat \<Rightarrow> nat \<Rightarrow> nat" where
  "cell w r c = r * (w + 1) + c"

subsection \<open>\<open>detectSkewAngle\<close> and \<open>deskew\<close>\<close>

text \<open>\<open>Math.round\<close>: the nearest integer, a tie going up.\<close>

definition js_round :: "real \<Rightarrow> int" where
  "js_round x = \<lfloor>x + 1 / 2\<rfloor>"

text \<open>
  The horizontal projection profile for one candidate angle (in degrees): \<open>height\<close>
  counters, one incremented for every dark pixel whose rotated row index falls inside
  the image.
\<close>

definition projection_profile :: "ImageData \<Rightarrow> real \<Rightarrow> nat list" where
  "projection_profile imageData angle =
     (let radians = angle * pi / 180;
          cosA = cos radians;
          sinA = sin radians
      in fold (\<lambda>y profile.
           fold (\<lambda>x profile.
              let newY = js_round (real x * sinA + real y * cosA)
              in if 0 \<le> newY \<and> newY < int (height imageData)
                 then (if px imageData y x < 128
                       then profile[nat newY := profile ! nat newY + 1]
                       else profile)
                 else profile)
             [0..<width imageData] profile)
          [0..<height imageData] (replicate (height imageData) 0))"

text \<open>
  The variance of a profile.  Both divisions are by \<open>profile.length\<close>; on an empty
  profile the result is \<open>NaN\<close>, here \<open>None\<close>.
\<close>

definition profile_variance :: "nat list \<Rightarrow> real option" where
  "profile_variance profile =
     (case js_div (fold (\<lambda>b a. a + real b) profile 0) (real (length profile)) of
        None \<Rightarrow> None
      | Some mean \<Rightarrow>
          js_div (fold (\<lambda>val total. total + (real val - mean) ^ 2) profile 0)
            (real (length profile)))"

text \<open>
  One round of the loop over the candidate angles, on the pair \<open>(bestAngle, maxVariance)\<close>.
  A comparison with \<open>NaN\<close> is false.
\<close>

definition skew_step :: "ImageData \<Rightarrow> real \<Rightarrow> real \<times> real \<Rightarrow> real \<times> real" where
  "skew_step imageData angle = (\<lambda>(bestAngle, maxVariance).
     case profile_variance (projection_profile imageData angle) of
       None \<Rightarrow> (bestAngle, maxVariance)
     | Some variance \<Rightarrow>
         if variance > maxVariance then (angle, variance) else (bestAngle, maxVariance))"

text \<open>\<open>for (angle = -15; angle <= 15; angle += 0.5)\<close>: 61 candidates.\<close>

definition candidate_angles :: "real list" where
  "candidate_angles = map (\<lambda>k. - 15 + real k / 2) [0..<61]"

definition detectSkewAngle :: "ImageData \<Rightarrow> real" where
  "detectSkewAngle imageData = fst (fold (skew_step imageData) candidate_angles (0, 0))"

text \<open>
  \<open>deskew\<close> reads and, when it rotates, resizes the canvas; the canvas is part of the
  state it returns.  The drawing itself (a temporary canvas filled with white,
  translated and rotated, the image put on it and read back) is the platform's and
  is the parameter \<open>draw_rotated\<close>, given the angle in radians and the new width and
  height; \<open>canvas_size\<close> is the platform's conversion of a number to a canvas dimension.
\<close>

record canvas =
  canvas_width :: nat
  canvas_height :: nat

definition deskew ::
  "(real \<Rightarrow> real \<Rightarrow> real \<Rightarrow> canvas \<Rightarrow> ImageData \<Rightarrow> ImageData) \<Rightarrow> (real \<Rightarrow> nat) \<Rightarrow>
   canvas \<Rightarrow> ImageData \<Rightarrow> canvas \<times> ImageData" where
  "deskew draw_rotated canvas_size cv imageData =
     (let angle = detectSkewAngle imageData
      in if \<bar>angle\<bar> < 0.5 then (cv, imageData)
         else
           let radians = - angle * pi / 180;
               cosA = cos radians;
               sinA = sin radians;
               newWidth = \<bar>real (canvas_width cv) * cosA\<bar> + \<bar>real (canvas_height cv) * sinA\<bar>;
               newHeight = \<bar>real (canvas_width cv) * sinA\<bar> + \<bar>real (canvas_height cv) * cosA\<bar>;
               deskewedData = draw_rotated radians newWidth newHeight cv imageData
           in (\<lparr>canvas_width = canvas_size newWidth, canvas_height = canvas_size newHeight\<rparr>,
               deskewedData))"

section \<open>Preprocessing options and the pipeline (\<open>ImagePreprocessor.preprocess\<close>)\<close>

text \<open>
  Every field of \<open>PreprocessingOptions\<close> is optional: \<open>None\<close> is a key the object
  does not have.  The fields carry the prefix \<open>opt_\<close>, since several share their
  name with a transform.
\<close>

datatype OCRMode = Printed | Handwritten

record PreprocessingOptions =
  opt_grayscale :: "bool option"
  opt_denoise :: "bool option"
  opt_contrast :: "bool option"
  opt_threshold :: "bool option"
  opt_adaptiveThreshold :: "bool option"
  opt_sharpen :: "bool option"
  opt_deskew :: "bool option"
  opt_morphology :: "bool option"
  opt_mode :: "OCRMode option"
  opt_contrastFactor :: "real option"
  opt_adaptiveBlockSize :: "nat option"
  opt_adaptiveC :: "real option"
  opt_upscale :: "bool option"
  opt_bilateralFilter :: "bool option"
  opt_unsharpMask :: "bool option"

definition getDefaultPrintedOptions :: PreprocessingOptions where
  "getDefaultPrintedOptions =
     \<lparr>opt_grayscale = Some True, opt_denoise = Some True, opt_contrast = Some True,
      opt_threshold = Some False, opt_adaptiveThreshold = Some False, opt_sharpen = Some True,
      opt_deskew = Some False, opt_morphology = Some False, opt_mode = Some Printed,
      opt_contrastFactor = Some 1.3, opt_adaptiveBlockSize = None, opt_adaptiveC = None,
      opt_upscale = Some False, opt_bilateralFilter = Some False, opt_unsharpMask = Some False\<rparr>"

definition getDefaultHandwrittenOptions :: PreprocessingOptions where
  "getDefaultHandwrittenOptions =
     \<lparr>opt_grayscale = Some True, opt_denoise = Some True, opt_contrast = Some True,
      opt_threshold = Some False, opt_adaptiveThreshold = Some True, opt_sharpen = Some False,
      opt_deskew = Some True, opt_morphology = Some True, opt_mode = Some Handwritten,
      opt_contrastFactor = Some 1.8, opt_adaptiveBlockSize = Some 31, opt_adaptiveC = Some 12,
      opt_upscale = Some True, opt_bilateralFilter = Some True, opt_unsharpMask = Some True\<rparr>"

text \<open>
  The object spread \<open>{ ...defaults, ...options }\<close>: a key of \<open>options\<close> replaces the
  same key of \<open>defaults\<close>, and a key \<open>options\<close> does not have leaves it alone.
\<close>

definition spread_field :: "'a option \<Rightarrow> 'a option \<Rightarrow> 'a option" where
  "spread_field d v = (case v of None \<Rightarrow> d | Some x \<Rightarrow> Some x)"

definition spread :: "PreprocessingOptions \<Rightarrow> PreprocessingOptions \<Rightarrow> PreprocessingOptions" where
  "spread defaults options =
     \<lparr>opt_grayscale = spread_field (opt_grayscale defaults) (opt_grayscale options),
      opt_denoise = spread_field (opt_denoise defaults) (opt_denoise options),
      opt_contrast = spread_field (opt_contrast defaults) (opt_contrast options),
      opt_threshold = spread_field (opt_threshold defaults) (opt_threshold options),
      opt_adaptiveThreshold =
        spread_field (opt_adaptiveThreshold defaults) (opt_adaptiveThreshold options),
      opt_sharpen = spread_field (opt_sharpen defaults) (opt_sharpen options),
      opt_deskew = spread_field (opt_deskew defaults) (opt_deskew options),
      opt_morphology = spread_field (opt_morphology defaults) (opt_morphology options),
      opt_mode = spread_field (opt_mode defaults) (opt_mode options),
      opt_contrastFactor = spread_field (opt_contrastFactor defaults) (opt_contrastFactor options),
      opt_adaptiveBlockSize =
        spread_field (opt_adaptiveBlockSize defaults) (opt_adaptiveBlockSize options),
      opt_adaptiveC = spread_field (opt_adaptiveC defaults) (opt_adaptiveC options),
      opt_upscale = spread_field (opt_upscale defaults) (opt_upscale options),
      opt_bilateralFilter =
        spread_field (opt_bilateralFilter defaults) (opt_bilateralFilter options),
      opt_unsharpMask = spread_field (opt_unsharpMask defaults) (opt_unsharpMask options)\<rparr>"

text \<open>
  The first lines of \<open>preprocess\<close>: the defaults are chosen by \<open>options.mode\<close> and
  the caller's options are spread over them.
\<close>

definition effective_options :: "PreprocessingOptions \<Rightarrow> PreprocessingOptions" where
  "effective_options options =
     (let defaults = (if opt_mode options = Some Handwritten
                      then getDefaultHandwrittenOptions else getDefaultPrintedOptions)
      in spread defaults options)"

text \<open>
  \<open>processItem\<close> of \<open>useBatchQueue\<close> passes \<open>{ ...preprocessingOptions, mode: ocrMode }\<close>
  to \<open>performOCR\<close>, which hands it to \<open>preprocess\<close>.
\<close>

definition queue_options :: "PreprocessingOptions \<Rightarrow> OCRMode \<Rightarrow> PreprocessingOptions" where
  "queue_options preprocessingOptions ocrMode = preprocessingOptions\<lparr>opt_mode := Some ocrMode\<rparr>"

text \<open>
  The options \<open>handleModeChange\<close> of \<open>UploadZone\<close> sets for a mode: seven toggles, no
  other key.
\<close>

definition handleModeChange :: "OCRMode \<Rightarrow> PreprocessingOptions" where
  "handleModeChange m =
     (if m = Handwritten
      then \<lparr>opt_grayscale = Some True, opt_denoise = Some True, opt_contrast = Some True,
            opt_threshold = None, opt_adaptiveThreshold = Some True, opt_sharpen = Some False,
            opt_deskew = Some True, opt_morphology = Some True, opt_mode = None,
            opt_contrastFactor = None, opt_adaptiveBlockSize = None, opt_adaptiveC = None,
            opt_upscale = None, opt_bilateralFilter = None, opt_unsharpMask = None\<rparr>
      else \<lparr>opt_grayscale = Some True, opt_denoise = Some True, opt_contrast = Some True,
            opt_threshold = None, opt_adaptiveThreshold = Some False, opt_sharpen = Some True,
            opt_deskew = Some False, opt_morphology = Some False, opt_mode = None,
            opt_contrastFactor = None, opt_adaptiveBlockSize = None, opt_adaptiveC = None,
            opt_upscale = None, opt_bilateralFilter = None, opt_unsharpMask = None\<rparr>)"

text \<open>The preset of a mode, and the mode \<open>preprocess\<close> selects for the caller's options.\<close>

definition preset :: "OCRMode \<Rightarrow> PreprocessingOptions" where
  "preset m = (case m of Handwritten \<Rightarrow> getDefaultHandwrittenOptions
                        | Printed \<Rightarrow> getDefaultPrintedOptions)"

definition selected_mode :: "PreprocessingOptions \<Rightarrow> OCRMode" where
  "selected_mode options = (case opt_mode options of Some m \<Rightarrow> m | None \<Rightarrow> Printed)"

subsection \<open>The stages\<close>

text \<open>
  A call of a transform, with the arguments \<open>preprocess\<close> gives it besides the image.
  \<open>preprocess\<close> is modelled over any representation \<open>'img\<close> of the canvas and its
  image data and any interpretation \<open>run\<close> of the calls on it, so that it says which
  transforms are called, with which arguments and in which order.  A toggle is on
  when it is present and \<open>true\<close>.
\<close>

datatype stage_call =
    Upscale nat
  | ToGrayscale
  | Deskew
  | BilateralFilter nat real real
  | MedianFilter nat
  | Denoise
  | IncreaseContrast real
  | Opening nat
  | Closing nat
  | UnsharpMask real nat
  | Sharpen
  | AdaptiveThreshold nat real
  | Threshold

definition truthy :: "bool option \<Rightarrow> bool" where
  "truthy b = (b = Some True)"

text \<open>Step 0: upscale first, in handwritten mode only.\<close>

definition step_upscale :: "(stage_call \<Rightarrow> 'img \<Rightarrow> 'img) \<Rightarrow> PreprocessingOptions \<Rightarrow> 'img \<Rightarrow> 'img" where
  "step_upscale run opts imageData =
     (if truthy (opt_upscale opts) \<and> opt_mode opts = Some Handwritten
      then run (Upscale 2) imageData else imageData)"

text \<open>Step 1: grayscale.\<close>

definition step_grayscale :: "(stage_call \<Rightarrow> 'img \<Rightarrow> 'img) \<Rightarrow> PreprocessingOptions \<Rightarrow> 'img \<Rightarrow> 'img" where
  "step_grayscale run opts imageData =
     (if truthy (opt_grayscale opts) then run ToGrayscale imageData else imageData)"

text \<open>Step 2: deskew.\<close>

definition step_deskew :: "(stage_call \<Rightarrow> 'img \<Rightarrow> 'img) \<Rightarrow> PreprocessingOptions \<Rightarrow> 'img \<Rightarrow> 'img" where
  "step_deskew run opts imageData =
     (if truthy (opt_deskew opts) then run Deskew imageData else imageData)"

text \<open>Step 3: the bilateral filter, else the median filter or the box blur.\<close>

definition step_noise :: "(stage_call \<Rightarrow> 'img \<Rightarrow> 'img) \<Rightarrow> PreprocessingOptions \<Rightarrow> 'img \<Rightarrow> 'img" where
  "step_noise run opts imageData =
     (if truthy (opt_bilateralFilter opts)
      then (let radius = (if opt_mode opts = Some Handwritten then 3 else 2)
            in run (BilateralFilter radius 40 40) imageData)
      else if truthy (opt_denoise opts)
      then (if opt_mode opts = Some Handwritten
            then run (MedianFilter 2) imageData
            else run Denoise imageData)
      else imageData)"

text \<open>Step 4: contrast, with \<open>opts.contrastFactor ?? 1.3\<close>.\<close>

definition step_contrast :: "(stage_call \<Rightarrow> 'img \<Rightarrow> 'img) \<Rightarrow> PreprocessingOptions \<Rightarrow> 'img \<Rightarrow> 'img" where
  "step_contrast run opts imageData =
     (if truthy (opt_contrast opts)
      then run (IncreaseContrast (case opt_contrastFactor opts of Some f \<Rightarrow> f | None \<Rightarrow> 1.3))
             imageData
      else imageData)"

text \<open>Step 5: opening, then closing, in handwritten mode only.\<close>

definition step_morphology :: "(stage_call \<Rightarrow> 'img \<Rightarrow> 'img) \<Rightarrow> PreprocessingOptions \<Rightarrow> 'img \<Rightarrow> 'img" where
  "step_morphology run opts imageData =
     (if truthy (opt_morphology opts) \<and> opt_mode opts = Some Handwritten
      then run (Closing 3) (run (Opening 2) imageData)
      else imageData)"

text \<open>Step 6: the unsharp mask, else the sharpening kernel outside handwritten mode.\<close>

definition step_sharpen :: "(stage_call \<Rightarrow> 'img \<Rightarrow> 'img) \<Rightarrow> PreprocessingOptions \<Rightarrow> 'img \<Rightarrow> 'img" where
  "step_sharpen run opts imageData =
     (if truthy (opt_unsharpMask opts)
      then (let amount = (if opt_mode opts = Some Handwritten then 2.0 else 1.5)
            in run (UnsharpMask amount 1) imageData)
      else if truthy (opt_sharpen opts) \<and> opt_mode opts \<noteq> Some Handwritten
      then run Sharpen imageData
      else imageData)"

text \<open>
  Step 7: the adaptive threshold with \<open>opts.adaptiveBlockSize ?? 15\<close> and
  \<open>opts.adaptiveC ?? 5\<close>, else the Otsu threshold.
\<close>

definition step_threshold :: "(stage_call \<Rightarrow> 'img \<Rightarrow> 'img) \<Rightarrow> PreprocessingOptions \<Rightarrow> 'img \<Rightarrow> 'img" where
  "step_threshold run opts imageData =
     (if truthy (opt_adaptiveThreshold opts)
      then run (AdaptiveThreshold
                  (case opt_adaptiveBlockSize opts of Some b \<Rightarrow> b | None \<Rightarrow> 15)
                  (case opt_adaptiveC opts of Some c \<Rightarrow> c | None \<Rightarrow> 5))
             imageData
      else if truthy (opt_threshold opts)
      then run Threshold imageData
      else imageData)"

text \<open>The body of \<open>preprocess\<close> between reading the image data and writing it back.\<close>

definition preprocess ::
  "(stage_call \<Rightarrow> 'img \<Rightarrow> 'img) \<Rightarrow> PreprocessingOptions \<Rightarrow> 'img \<Rightarrow> 'img" where
  "preprocess run options imageData =
     (let opts = effective_options options;
          imageData = step_upscale run opts imageData;
          imageData = step_grayscale run opts imageData;
          imageData = step_deskew run opts imageData;
          imageData = step_noise run opts imageData;
          imageData = step_contrast run opts imageData;
          imageData = step_morphology run opts imageData;
          imageData = step_sharpen run opts imageData;
          imageData = step_threshold run opts imageData
      in imageData)"

text \<open>
  The calls a run of \<open>preprocess\<close> makes, in order: \<open>preprocess\<close> itself, run on the
  empty log with the interpretation that appends each call to the log.
\<close>

definition record_call :: "stage_call \<Rightarrow> stage_call list \<Rightarrow> stage_call list" where
  "record_call s calls = calls @ [s]"

definition stage_calls :: "PreprocessingOptions \<Rightarrow> stage_call list" where
  "stage_calls options = preprocess record_call options []"

text \<open>
  The place of a call in the fixed order: upscale, grayscale, deskew, noise reduction,
  contrast, morphology, edge enhancement, binarization.
\<close>

fun stage_rank :: "stage_call \<Rightarrow> nat" where
  "stage_rank (Upscale _) = 0"
| "stage_rank ToGrayscale = 1"
| "stage_rank Deskew = 2"
| "stage_rank (BilateralFilter _ _ _) = 3"
| "stage_rank (MedianFilter _) = 3"
| "stage_rank Denoise = 3"
| "stage_rank (IncreaseContrast _) = 4"
| "stage_rank (Opening _) = 5"
| "stage_rank (Closing _) = 5"
| "stage_rank (UnsharpMask _ _) = 6"
| "stage_rank Sharpen = 6"
| "stage_rank (AdaptiveThreshold _ _) = 7"
| "stage_rank Threshold = 7"

text \<open>The eleven toggles of \<open>PreprocessingOptions\<close>.\<close>

definition flag_fields :: "(PreprocessingOptions \<Rightarrow> bool option) list" where
  "flag_fields =
     [opt_grayscale, opt_denoise, opt_contrast, opt_threshold, opt_adaptiveThreshold,
      opt_sharpen, opt_deskew, opt_morphology, opt_upscale, opt_bilateralFilter,
      opt_unsharpMask]"

section \<open>The batch queue (hook \<open>useBatchQueue\<close>)\<close>

text \<open>
  A queue item as \<open>BatchQueue\<close> declares it; of the file only the name is kept.  The
  state \<open>processItem\<close> works on is the hook's list of items, together with what leaves
  the hook: the lines written to the console and the updates \<open>updateDocument\<close>
  has stored.
\<close>

datatype QueueItemStatus = Pending | Processing | Completed | Failed

record QueueItem =
  item_id :: string
  file_name :: string
  preview :: string
  language :: string
  detectedLanguage :: "string option"
  status :: QueueItemStatus
  progress :: real
  progressMessage :: "string option"
  error :: "string option"
  confidence :: "real option"

record document_update =
  extracted_text :: string
  update_confidence :: real
  original_file_url :: "string option"

record queue_state =
  items :: "QueueItem list"
  console :: "string list"
  document_updates :: "document_update list"

text \<open>
  A thrown value is an \<open>Error\<close> with its message or something that is no \<open>Error\<close>
  (a rejected request may throw a plain object).
\<close>

datatype thrown = Error string | NonError

record ocr_result =
  ocr_text :: string
  ocr_confidence :: real

text \<open>
  What the collaborators outside the hook answer: the document store
  (\<open>createDocument\<close>, \<open>updateDocument\<close>), the file storage (\<open>uploadFile\<close>), and the
  recognition engine behind \<open>detectLanguage\<close> and \<open>performOCR\<close>, with the progress
  messages each of the two reports before it finishes.  \<open>Inl\<close> is a thrown value.
\<close>

record effects =
  createDocument_outcome :: "thrown + string"
  uploadFile_outcome :: "thrown + string"
  detectLanguage_messages :: "string list"
  detectLanguage_body :: "thrown + string"
  performOCR_progress :: "string \<Rightarrow> (string \<times> real) list"
  performOCR_body :: "string \<Rightarrow> PreprocessingOptions \<Rightarrow> thrown + ocr_result"
  updateDocument_outcome :: "thrown + unit"

text \<open>\<open>setItems(prev => prev.map(item => item.id === id ? { ...item, ...updates } : item))\<close>.\<close>

definition updateItem :: "string \<Rightarrow> (QueueItem \<Rightarrow> QueueItem) \<Rightarrow> queue_state \<Rightarrow> queue_state" where
  "updateItem i updates s =
     s\<lparr>items := map (\<lambda>item. if item_id item = i then updates item else item) (items s)\<rparr>"

text \<open>
  \<open>detectLanguage\<close> catches whatever its body throws, writes to the console and
  answers English.  Its progress messages reach the item through the callback
  \<open>processItem\<close> gives it.
\<close>

definition detectLanguage :: "effects \<Rightarrow> string \<Rightarrow> queue_state \<Rightarrow> queue_state \<times> string" where
  "detectLanguage fx i s =
     (let s = fold (\<lambda>msg. updateItem i (\<lambda>item. item\<lparr>progressMessage := Some msg\<rparr>))
                (detectLanguage_messages fx) s
      in case detectLanguage_body fx of
           Inl e \<Rightarrow> (s\<lparr>console := console s @ [''Language detection failed:'']\<rparr>, ''eng'')
         | Inr l \<Rightarrow> (s, l))"

text \<open>
  \<open>performOCR\<close> wraps whatever its body throws into
  \<open>new Error(`OCR failed: ${error instanceof Error ? error.message : 'Unknown error'}`)\<close>.
\<close>

definition performOCR :: "effects \<Rightarrow> string \<Rightarrow> PreprocessingOptions \<Rightarrow> thrown + ocr_result" where
  "performOCR fx lang options =
     (case performOCR_body fx lang options of
        Inl e \<Rightarrow> Inl (Error (''OCR failed: '' @ (case e of Error m \<Rightarrow> m | NonError \<Rightarrow> ''Unknown error'')))
      | Inr r \<Rightarrow> Inr r)"

text \<open>
  The upload inside \<open>processItem\<close>, with its own \<open>try\<close> and \<open>catch\<close>: a failure is
  written to the console and leaves \<open>fileUrl\<close> undefined.
\<close>

definition upload_step :: "effects \<Rightarrow> queue_state \<Rightarrow> queue_state \<times> string option" where
  "upload_step fx s =
     (case uploadFile_outcome fx of
        Inl e \<Rightarrow>
          (s\<lparr>console := console s @ [''File upload failed, continuing without storage:'']\<rparr>,
           None)
      | Inr url \<Rightarrow> (s, Some url))"

text \<open>
  The language step of \<open>processItem\<close>: detection when the item's language is \<open>auto\<close>.
  It gives the state, \<open>ocrLanguage\<close> and \<open>detectedLanguage\<close>.
\<close>

definition language_step ::
  "(string \<Rightarrow> string) \<Rightarrow> effects \<Rightarrow> QueueItem \<Rightarrow> queue_state \<Rightarrow>
   queue_state \<times> string \<times> string option" where
  "language_step getLanguageName fx item s =
     (if language item = ''auto''
      then
        let s = updateItem (item_id item)
                  (\<lambda>i. i\<lparr>progress := 10, progressMessage := Some ''Detecting language...''\<rparr>) s;
            (s, detected) = detectLanguage fx (item_id item) s;
            s = updateItem (item_id item)
                  (\<lambda>i. i\<lparr>progress := 15,
                         progressMessage := Some (''Detected: '' @ getLanguageName detected),
                         detectedLanguage := Some detected\<rparr>) s
        in (s, detected, Some detected)
      else (s, language item, None))"

text \<open>The progress callback \<open>processItem\<close> gives to \<open>performOCR\<close>, for each report.\<close>

definition report_progress :: "effects \<Rightarrow> string \<Rightarrow> string \<Rightarrow> queue_state \<Rightarrow> queue_state" where
  "report_progress fx i ocrLanguage s =
     fold (\<lambda>(st, p). updateItem i (\<lambda>item. item\<lparr>progress := 20 + p * 70,
                                              progressMessage := Some st\<rparr>))
       (performOCR_progress fx ocrLanguage) s"

text \<open>
  The \<open>try\<close> block of \<open>processItem\<close>: the state it leaves and, when it throws, the
  value thrown.  The parameters \<open>preprocessingOptions\<close> and \<open>ocrMode\<close> are the hook's.
\<close>

definition processItem_try ::
  "(string \<Rightarrow> string) \<Rightarrow> PreprocessingOptions \<Rightarrow> OCRMode \<Rightarrow> effects \<Rightarrow> QueueItem \<Rightarrow>
   queue_state \<Rightarrow> queue_state \<times> thrown option" where
  "processItem_try getLanguageName preprocessingOptions ocrMode fx item s =
     (let s = updateItem (item_id item)
                (\<lambda>i. i\<lparr>status := Processing, progress := 0,
                       progressMessage := Some ''Starting...''\<rparr>) s
      in case createDocument_outcome fx of
           Inl e \<Rightarrow> (s, Some e)
         | Inr doc \<Rightarrow>
             let s = updateItem (item_id item)
                       (\<lambda>i. i\<lparr>progress := 5, progressMessage := Some ''Uploading file...''\<rparr>) s;
                 (s, fileUrl) = upload_step fx s;
                 (s, ocrLanguage, detected) = language_step getLanguageName fx item s;
                 s = updateItem (item_id item)
                       (\<lambda>i. i\<lparr>progress := 20, progressMessage := Some ''Preprocessing...''\<rparr>) s;
                 s = report_progress fx (item_id item) ocrLanguage s
             in case performOCR fx ocrLanguage (queue_options preprocessingOptions ocrMode) of
                  Inl e \<Rightarrow> (s, Some e)
                | Inr result \<Rightarrow>
                    (case updateDocument_outcome fx of
                       Inl e \<Rightarrow> (s, Some e)
                     | Inr u \<Rightarrow>
                         let s = s\<lparr>document_updates := document_updates s @
                                   [\<lparr>extracted_text = ocr_text result,
                                     update_confidence = ocr_confidence result,
                                     original_file_url = fileUrl\<rparr>]\<rparr>
                         in (updateItem (item_id item)
                               (\<lambda>i. i\<lparr>status := Completed, progress := 100,
                                      confidence := Some (ocr_confidence result),
                                      detectedLanguage := detected,
                                      progressMessage := None\<rparr>) s,
                             None)))"

text \<open>
  \<open>error instanceof Error ? error.message : 'Processing failed'\<close>, and \<open>processItem\<close>
  with its \<open>catch\<close> block.
\<close>

definition failure_text :: "thrown \<Rightarrow> string" where
  "failure_text e = (case e of Error m \<Rightarrow> m | NonError \<Rightarrow> ''Processing failed'')"

definition processItem ::
  "(string \<Rightarrow> string) \<Rightarrow> PreprocessingOptions \<Rightarrow> OCRMode \<Rightarrow> effects \<Rightarrow> QueueItem \<Rightarrow>
   queue_state \<Rightarrow> queue_state" where
  "processItem getLanguageName preprocessingOptions ocrMode fx item s =
     (case processItem_try getLanguageName preprocessingOptions ocrMode fx item s of
        (s, None) \<Rightarrow> s
      | (s, Some e) \<Rightarrow>
          updateItem (item_id item)
            (\<lambda>i. i\<lparr>status := Failed, progress := 0, error := Some (failure_text e),
                   progressMessage := None\<rparr>)
            (s\<lparr>console := console s @ [''Processing failed:'']\<rparr>))"

text \<open>
  The language handed to \<open>performOCR\<close>, and the relation between two states of the
  queue that hold the same items in the same places, except for changes to fields
  other than the id of the items with the id \<open>i\<close>.
\<close>

definition ocr_language :: "effects \<Rightarrow> QueueItem \<Rightarrow> string" where
  "ocr_language fx item =
     (if language item = ''auto''
      then (case detectLanguage_body fx of Inl e \<Rightarrow> ''eng'' | Inr l \<Rightarrow> l)
      else language item)"

definition keeps_others :: "string \<Rightarrow> queue_state \<Rightarrow> queue_state \<Rightarrow> bool" where
  "keeps_others i s s' =
     (map item_id (items s') = map item_id (items s) \<and>
      (\<forall>j < length (items s). item_id (items s ! j) \<noteq> i \<longrightarrow> items s' ! j = items s ! j))"

text \<open>
  A queue of two pending items and collaborators that all succeed, for the examples:
  the failures are put into \<open>example_effects\<close> one at a time.
\<close>

definition example_item :: QueueItem where
  "example_item =
     \<lparr>item_id = ''queue-1'', file_name = ''page.png'', preview = ''blob:1'', language = ''eng'',
      detectedLanguage = None, status = Pending, progress = 0, progressMessage = None,
      error = None, confidence = None\<rparr>"

definition example_queue :: queue_state where
  "example_queue =
     \<lparr>items = [example_item, example_item\<lparr>item_id := ''queue-2'', file_name := ''scan.png''\<rparr>],
      console = [], document_updates = []\<rparr>"

definition example_effects :: effects where
  "example_effects =
     \<lparr>createDocument_outcome = Inr ''doc-1'',
      uploadFile_outcome = Inr ''https://files/page.png'',
      detectLanguage_messages = [],
      detectLanguage_body = Inr ''eng'',
      performOCR_progress = (\<lambda>lang. [(''Recognizing text...'', 1 / 2)]),
      performOCR_body = (\<lambda>lang options. Inr \<lparr>ocr_text = ''text'', ocr_confidence = 90\<rparr>),
      updateDocument_outcome = Inr ()\<rparr>"

section \<open>Properties of the text-editor history\<close>

lemma length_push_limited:
  "length (past h) \<le> m \<Longrightarrow> length (push_limited m h) \<le> m"
  by (simp add: push_limited_def Let_def)

lemma bounded_commitChange:
  "history_bounded m h \<Longrightarrow> history_bounded m (commitChange m t h)"
  by (simp add: history_bounded_def commitChange_def length_push_limited)

lemma bounded_setText_history:
  "history_bounded m h \<Longrightarrow> history_bounded m (setText_history m b t h)"
  by (simp add: history_bounded_def setText_history_def length_push_limited)

lemma bounded_undo_history:
  "history_bounded m h \<Longrightarrow> history_bounded m (undo_history h)"
  by (cases "past h") (simp_all add: history_bounded_def undo_history_def)

lemma bounded_redo_history:
  "history_bounded m h \<Longrightarrow> history_bounded m (redo_history h)"
  by (cases "future h") (simp_all add: history_bounded_def redo_history_def)

lemma bounded_editor_step:
  "history_bounded m (history e) \<Longrightarrow> history_bounded m (history (editor_step m e ev))"
proof (cases ev)
  case (Reset t)
  then show ?thesis by (simp add: reset_def history_bounded_def)
qed (simp_all add: setText_def timer_fired_def undo_def redo_def
      bounded_commitChange bounded_setText_history bounded_undo_history
      bounded_redo_history split: option.splits)

lemma bounded_foldl_step:
  "history_bounded m (history e) \<Longrightarrow>
   history_bounded m (history (foldl (editor_step m) e evs))"
  by (induction evs arbitrary: e) (simp_all add: bounded_editor_step)

lemma bounded_editor_run: "history_bounded m (history (editor_run m t evs))"
  unfolding editor_run_def
  by (rule bounded_foldl_step) (simp add: history_bounded_def initial_editor_def)

text \<open>
  Claim C9.  \<open>undo\<close> on a state whose past is empty and \<open>redo\<close> on a state whose
  future is empty leave the history unchanged, and when the past is not empty,
  \<open>undo\<close> followed by \<open>redo\<close> gives back the history before the \<open>undo\<close>: the same
  past, present and future.
\<close>

theorem undo_redo_history:
  "(past (history e) = [] \<longrightarrow> history (undo e) = history e) \<and>
   (future (history e) = [] \<longrightarrow> history (redo e) = history e) \<and>
   (past (history e) \<noteq> [] \<longrightarrow> history (redo (undo e)) = history e)"
  by (simp add: undo_def redo_def undo_history_def redo_history_def)

theorem undo_redo_history_witness:
  "history (undo (initial_editor ''a'')) = history (initial_editor ''a'') \<and>
   history (redo (initial_editor ''a'')) = history (initial_editor ''a'') \<and>
   past (history (setText 100 False ''ab'' (initial_editor ''a''))) = [''a''] \<and>
   history (redo (undo (setText 100 False ''ab'' (initial_editor ''a'')))) =
     \<lparr>past = [''a''], present = ''ab'', future = []\<rparr>"
  using undo_redo_history [of "initial_editor ''a''"]
    undo_redo_history [of "setText 100 False ''ab'' (initial_editor ''a'')"]
  by (simp add: initial_editor_def setText_def setText_history_def push_limited_def)

text \<open>
  Claim C10.  After every sequence of \<open>setText\<close> calls, debounced commits, \<open>undo\<close>,
  \<open>redo\<close> and \<open>reset\<close> calls on a freshly mounted editor, the past holds at most
  \<open>maxHistory\<close> entries; and wherever \<open>setText\<close> or a commit appends the present to
  a past that is already full, the oldest entry is the one dropped.
\<close>

theorem past_length_bounded:
  "length (past (history (editor_run maxHistory initialText evs))) \<le> maxHistory \<and>
   (length (past h) = maxHistory \<and> 0 < maxHistory \<longrightarrow>
      push_limited maxHistory h = tl (past h) @ [present h])"
proof
  have "history_bounded maxHistory (history (editor_run maxHistory initialText evs))"
    by (rule bounded_editor_run)
  then show "length (past (history (editor_run maxHistory initialText evs))) \<le> maxHistory"
    by (simp add: history_bounded_def)
next
  show "length (past h) = maxHistory \<and> 0 < maxHistory \<longrightarrow>
      push_limited maxHistory h = tl (past h) @ [present h]"
    by (cases "past h") (auto simp: push_limited_def)
qed

theorem past_length_bounded_witness:
  "length (past (history (editor_run 2 ''a''
      [SetText ''b'', TimerFired, SetText ''c'', TimerFired, SetText ''d'', SetTextLate ''de'',
       TimerFired, Undo, Redo]))) \<le> 2 \<and>
   past (history (editor_run 2 ''a''
      [SetText ''b'', TimerFired, SetText ''c'', TimerFired, SetText ''d'', SetTextLate ''de'',
       TimerFired, Undo, Redo])) = [''b'', ''c''] \<and>
   push_limited 2 \<lparr>past = [''a'', ''b''], present = ''c'', future = []\<rparr> = [''b'', ''c'']"
  using past_length_bounded [of 2 "''a''"
      "[SetText ''b'', TimerFired, SetText ''c'', TimerFired, SetText ''d'', SetTextLate ''de'',
        TimerFired, Undo, Redo]" "\<lparr>past = [''a'', ''b''], present = ''c'', future = []\<rparr>"]
  by (simp add: editor_run_def initial_editor_def setText_def setText_history_def
      timer_fired_def commitChange_def push_limited_def undo_def redo_def
      undo_history_def redo_history_def)

section \<open>Properties of the options and the pipeline\<close>

subsection \<open>The calls of the pipeline\<close>

lemmas step_defs =
  step_upscale_def step_grayscale_def step_deskew_def step_noise_def step_contrast_def
  step_morphology_def step_sharpen_def step_threshold_def

lemma step_fold:
  "step_upscale run opts img = fold run (step_upscale record_call opts []) img"
  "step_grayscale run opts img = fold run (step_grayscale record_call opts []) img"
  "step_deskew run opts img = fold run (step_deskew record_call opts []) img"
  "step_noise run opts img = fold run (step_noise record_call opts []) img"
  "step_contrast run opts img = fold run (step_contrast record_call opts []) img"
  "step_morphology run opts img = fold run (step_morphology record_call opts []) img"
  "step_sharpen run opts img = fold run (step_sharpen record_call opts []) img"
  "step_threshold run opts img = fold run (step_threshold record_call opts []) img"
  by (simp_all add: step_defs record_call_def Let_def)

lemma step_log:
  "step_upscale record_call opts calls = calls @ step_upscale record_call opts []"
  "step_grayscale record_call opts calls = calls @ step_grayscale record_call opts []"
  "step_deskew record_call opts calls = calls @ step_deskew record_call opts []"
  "step_noise record_call opts calls = calls @ step_noise record_call opts []"
  "step_contrast record_call opts calls = calls @ step_contrast record_call opts []"
  "step_morphology record_call opts calls = calls @ step_morphology record_call opts []"
  "step_sharpen record_call opts calls = calls @ step_sharpen record_call opts []"
  "step_threshold record_call opts calls = calls @ step_threshold record_call opts []"
  by (simp_all add: step_defs record_call_def Let_def)

lemma step_rank:
  "\<forall>s \<in> set (step_upscale record_call opts []). stage_rank s = 0"
  "\<forall>s \<in> set (step_grayscale record_call opts []). stage_rank s = 1"
  "\<forall>s \<in> set (step_deskew record_call opts []). stage_rank s = 2"
  "\<forall>s \<in> set (step_noise record_call opts []). stage_rank s = 3"
  "\<forall>s \<in> set (step_contrast record_call opts []). stage_rank s = 4"
  "\<forall>s \<in> set (step_morphology record_call opts []). stage_rank s = 5"
  "\<forall>s \<in> set (step_sharpen record_call opts []). stage_rank s = 6"
  "\<forall>s \<in> set (step_threshold record_call opts []). stage_rank s = 7"
  by (auto simp: step_defs record_call_def Let_def)

lemma stage_calls_steps:
  "stage_calls options =
     step_upscale record_call (effective_options options) [] @
     step_grayscale record_call (effective_options options) [] @
     step_deskew record_call (effective_options options) [] @
     step_noise record_call (effective_options options) [] @
     step_contrast record_call (effective_options options) [] @
     step_morphology record_call (effective_options options) [] @
     step_sharpen record_call (effective_options options) [] @
     step_threshold record_call (effective_options options) []"
proof -
  let ?o = "effective_options options"
  have "stage_calls options =
      step_threshold record_call ?o (step_sharpen record_call ?o (step_morphology record_call ?o
        (step_contrast record_call ?o (step_noise record_call ?o (step_deskew record_call ?o
          (step_grayscale record_call ?o (step_upscale record_call ?o [])))))))"
    by (simp only: stage_calls_def preprocess_def Let_def)
  also have "\<dots> = step_upscale record_call ?o [] @ step_grayscale record_call ?o [] @
      step_deskew record_call ?o [] @ step_noise record_call ?o [] @
      step_contrast record_call ?o [] @ step_morphology record_call ?o [] @
      step_sharpen record_call ?o [] @ step_threshold record_call ?o []"
    apply (subst step_log(8))
    apply (subst step_log(7))
    apply (subst step_log(6))
    apply (subst step_log(5))
    apply (subst step_log(4))
    apply (subst step_log(3))
    apply (subst step_log(2))
    apply (simp only: append_assoc)
    done
  finally show ?thesis .
qed

lemma preprocess_fold:
  "preprocess run options img = fold run (stage_calls options) img"
proof -
  let ?o = "effective_options options"
  have "preprocess run options img =
      step_threshold run ?o (step_sharpen run ?o (step_morphology run ?o
        (step_contrast run ?o (step_noise run ?o (step_deskew run ?o
          (step_grayscale run ?o (step_upscale run ?o img)))))))"
    by (simp only: preprocess_def Let_def)
  also have "\<dots> = fold run (stage_calls options) img"
    unfolding stage_calls_steps fold_append comp_def
    apply (subst step_fold(8))
    apply (subst step_fold(7))
    apply (subst step_fold(6))
    apply (subst step_fold(5))
    apply (subst step_fold(4))
    apply (subst step_fold(3))
    apply (subst step_fold(2))
    apply (subst step_fold(1))
    apply (rule refl)
    done
  finally show ?thesis .
qed

lemma filter_rank:
  "\<forall>s \<in> set xs. stage_rank s = k \<Longrightarrow>
   filter (\<lambda>s. stage_rank s = j) xs = (if j = k then xs else [])"
  by (induction xs) auto

lemma sorted_rank_const:
  "\<forall>s \<in> set xs. stage_rank s = k \<Longrightarrow> sorted (map stage_rank xs)"
  by (induction xs) auto

lemma sorted_rank_append:
  "\<forall>s \<in> set xs. stage_rank s = k \<Longrightarrow> \<forall>s \<in> set ys. k \<le> stage_rank s \<Longrightarrow>
   sorted (map stage_rank ys) \<Longrightarrow> sorted (map stage_rank (xs @ ys))"
  using sorted_rank_const [of xs k] by (auto simp: sorted_append)

lemma stage_calls_sorted: "sorted (map stage_rank (stage_calls options))"
  unfolding stage_calls_steps
  by (intro sorted_rank_append [OF step_rank(1)] sorted_rank_append [OF step_rank(2)]
      sorted_rank_append [OF step_rank(3)] sorted_rank_append [OF step_rank(4)]
      sorted_rank_append [OF step_rank(5)] sorted_rank_append [OF step_rank(6)]
      sorted_rank_append [OF step_rank(7)] sorted_rank_const [OF step_rank(8)])
    (use step_rank in \<open>auto simp: le_Suc_eq\<close>)

lemma rank_calls:
  "filter (\<lambda>s. stage_rank s = 0) (stage_calls options) =
     step_upscale record_call (effective_options options) []"
  "filter (\<lambda>s. stage_rank s = 1) (stage_calls options) =
     step_grayscale record_call (effective_options options) []"
  "filter (\<lambda>s. stage_rank s = 2) (stage_calls options) =
     step_deskew record_call (effective_options options) []"
  "filter (\<lambda>s. stage_rank s = 3) (stage_calls options) =
     step_noise record_call (effective_options options) []"
  "filter (\<lambda>s. stage_rank s = 4) (stage_calls options) =
     step_contrast record_call (effective_options options) []"
  "filter (\<lambda>s. stage_rank s = 5) (stage_calls options) =
     step_morphology record_call (effective_options options) []"
  "filter (\<lambda>s. stage_rank s = 6) (stage_calls options) =
     step_sharpen record_call (effective_options options) []"
  "filter (\<lambda>s. stage_rank s = 7) (stage_calls options) =
     step_threshold record_call (effective_options options) []"
  unfolding stage_calls_steps filter_append
  by (simp_all add: filter_rank [OF step_rank(1)] filter_rank [OF step_rank(2)]
      filter_rank [OF step_rank(3)] filter_rank [OF step_rank(4)] filter_rank [OF step_rank(5)]
      filter_rank [OF step_rank(6)] filter_rank [OF step_rank(7)] filter_rank [OF step_rank(8)])

lemma step_nonempty:
  "(step_upscale record_call opts [] \<noteq> []) =
     (truthy (opt_upscale opts) \<and> opt_mode opts = Some Handwritten)"
  "(step_grayscale record_call opts [] \<noteq> []) = truthy (opt_grayscale opts)"
  "(step_deskew record_call opts [] \<noteq> []) = truthy (opt_deskew opts)"
  "(step_noise record_call opts [] \<noteq> []) =
     (truthy (opt_bilateralFilter opts) \<or> truthy (opt_denoise opts))"
  "(step_contrast record_call opts [] \<noteq> []) = truthy (opt_contrast opts)"
  "(step_morphology record_call opts [] \<noteq> []) =
     (truthy (opt_morphology opts) \<and> opt_mode opts = Some Handwritten)"
  "(step_sharpen record_call opts [] \<noteq> []) =
     (truthy (opt_unsharpMask opts) \<or>
      truthy (opt_sharpen opts) \<and> opt_mode opts \<noteq> Some Handwritten)"
  "(step_threshold record_call opts [] \<noteq> []) =
     (truthy (opt_adaptiveThreshold opts) \<or> truthy (opt_threshold opts))"
  by (simp_all add: step_defs record_call_def Let_def)

lemma ex_filter: "(\<exists>s \<in> set xs. P s) = (filter P xs \<noteq> [])"
  by (simp add: filter_empty_conv)

lemma step_noise_calls:
  "length (step_noise record_call opts []) \<le> 1"
  "truthy (opt_bilateralFilter opts) \<Longrightarrow>
     step_noise record_call opts [] =
       [BilateralFilter (if opt_mode opts = Some Handwritten then 3 else 2) 40 40]"
  by (simp_all add: step_noise_def record_call_def Let_def)

lemma step_threshold_calls:
  "length (step_threshold record_call opts []) \<le> 1"
  "truthy (opt_adaptiveThreshold opts) \<or> truthy (opt_threshold opts) \<Longrightarrow>
     step_threshold record_call opts [] \<noteq> []"
  by (auto simp: step_threshold_def record_call_def)

lemma stage_calls_last:
  assumes "truthy (opt_adaptiveThreshold (effective_options options)) \<or>
      truthy (opt_threshold (effective_options options))"
  shows "stage_calls options \<noteq> [] \<and> stage_rank (last (stage_calls options)) = 7"
proof -
  let ?t = "step_threshold record_call (effective_options options) []"
  have ne: "?t \<noteq> []" using assms by (rule step_threshold_calls(2))
  then have "last (stage_calls options) = last ?t"
    unfolding stage_calls_steps by simp
  moreover have "last ?t \<in> set ?t" using ne by simp
  then have "stage_rank (last ?t) = 7"
    using step_rank(8) [of "effective_options options"] by blast
  moreover have "stage_calls options \<noteq> []" using ne unfolding stage_calls_steps by simp
  ultimately show ?thesis by simp
qed

lemma stage_calls_present:
  "(\<exists>s \<in> set (stage_calls options). stage_rank s = 0) =
     (truthy (opt_upscale (effective_options options)) \<and>
      opt_mode (effective_options options) = Some Handwritten)"
  "(\<exists>s \<in> set (stage_calls options). stage_rank s = 1) =
     truthy (opt_grayscale (effective_options options))"
  "(\<exists>s \<in> set (stage_calls options). stage_rank s = 2) =
     truthy (opt_deskew (effective_options options))"
  "(\<exists>s \<in> set (stage_calls options). stage_rank s = 3) =
     (truthy (opt_bilateralFilter (effective_options options)) \<or>
      truthy (opt_denoise (effective_options options)))"
  "(\<exists>s \<in> set (stage_calls options). stage_rank s = 4) =
     truthy (opt_contrast (effective_options options))"
  "(\<exists>s \<in> set (stage_calls options). stage_rank s = 5) =
     (truthy (opt_morphology (effective_options options)) \<and>
      opt_mode (effective_options options) = Some Handwritten)"
  "(\<exists>s \<in> set (stage_calls options). stage_rank s = 6) =
     (truthy (opt_unsharpMask (effective_options options)) \<or>
      truthy (opt_sharpen (effective_options options)) \<and>
      opt_mode (effective_options options) \<noteq> Some Handwritten)"
  "(\<exists>s \<in> set (stage_calls options). stage_rank s = 7) =
     (truthy (opt_adaptiveThreshold (effective_options options)) \<or>
      truthy (opt_threshold (effective_options options)))"
  unfolding ex_filter rank_calls step_nonempty by (rule refl)+

subsection \<open>The effective options\<close>

lemma preset_mode: "opt_mode (preset m) = Some m"
  by (cases m) (simp_all add: preset_def getDefaultPrintedOptions_def getDefaultHandwrittenOptions_def)

lemma effective_options_preset:
  "effective_options options = spread (preset (selected_mode options)) options"
proof (cases "opt_mode options")
  case None
  then show ?thesis by (simp add: effective_options_def selected_mode_def preset_def)
next
  case (Some m)
  then show ?thesis
    by (cases m) (simp_all add: effective_options_def selected_mode_def preset_def)
qed

lemma spread_flag:
  "f \<in> set flag_fields \<Longrightarrow> f (spread d v) = spread_field (f d) (f v)"
  by (auto simp: flag_fields_def spread_def)

lemma effective_flag:
  "f \<in> set flag_fields \<Longrightarrow>
   f (effective_options options) =
     (case f options of Some v \<Rightarrow> Some v | None \<Rightarrow> f (preset (selected_mode options)))"
  unfolding effective_options_preset by (simp add: spread_flag spread_field_def)

lemma effective_numbers:
  "opt_contrastFactor (effective_options options) =
     (case opt_contrastFactor options of Some v \<Rightarrow> Some v
      | None \<Rightarrow> opt_contrastFactor (preset (selected_mode options)))"
  "opt_adaptiveBlockSize (effective_options options) =
     (case opt_adaptiveBlockSize options of Some v \<Rightarrow> Some v
      | None \<Rightarrow> opt_adaptiveBlockSize (preset (selected_mode options)))"
  "opt_adaptiveC (effective_options options) =
     (case opt_adaptiveC options of Some v \<Rightarrow> Some v
      | None \<Rightarrow> opt_adaptiveC (preset (selected_mode options)))"
  unfolding effective_options_preset by (simp_all add: spread_def spread_field_def)

lemma effective_mode:
  "opt_mode (effective_options options) = Some (selected_mode options)"
  unfolding effective_options_preset
  by (cases "opt_mode options")
    (simp_all add: spread_def spread_field_def preset_mode selected_mode_def)

lemma queue_options_fields:
  "selected_mode (queue_options p m) = m"
  "f \<in> set flag_fields \<Longrightarrow> f (queue_options p m) = f p"
  "opt_contrastFactor (queue_options p m) = opt_contrastFactor p"
  "opt_adaptiveBlockSize (queue_options p m) = opt_adaptiveBlockSize p"
  "opt_adaptiveC (queue_options p m) = opt_adaptiveC p"
  by (auto simp: queue_options_def selected_mode_def flag_fields_def)

lemmas option_evals =
  stage_calls_steps step_defs record_call_def effective_options_def
  queue_options_def handleModeChange_def spread_def spread_field_def truthy_def
  getDefaultPrintedOptions_def getDefaultHandwrittenOptions_def

subsection \<open>The claims on the pipeline and its options\<close>

text \<open>
  Claim C1.  For every image and every options record, \<open>preprocess\<close> applies the calls
  of \<open>stage_calls\<close>, one after the other, and these stand in the fixed order upscale,
  grayscale, deskew, noise reduction, contrast, morphology, edge enhancement,
  binarization.  A stage runs when its toggle is on in the effective options (upscale
  and morphology in handwritten mode only, the sharpening kernel outside it and only
  without the unsharp mask).  The noise step makes at most one call, and with the
  bilateral filter on, whatever \<open>denoise\<close> says, that call is the bilateral filter.
  Binarization makes at most one call, and when the adaptive or the Otsu threshold is
  on, it is the last call of the run.
\<close>

theorem pipeline_stage_order:
  "preprocess run options imageData = fold run (stage_calls options) imageData \<and>
   sorted (map stage_rank (stage_calls options)) \<and>
   (\<exists>s \<in> set (stage_calls options). stage_rank s = 0) =
     (truthy (opt_upscale (effective_options options)) \<and>
      opt_mode (effective_options options) = Some Handwritten) \<and>
   (\<exists>s \<in> set (stage_calls options). stage_rank s = 1) =
     truthy (opt_grayscale (effective_options options)) \<and>
   (\<exists>s \<in> set (stage_calls options). stage_rank s = 2) =
     truthy (opt_deskew (effective_options options)) \<and>
   (\<exists>s \<in> set (stage_calls options). stage_rank s = 3) =
     (truthy (opt_bilateralFilter (effective_options options)) \<or>
      truthy (opt_denoise (effective_options options))) \<and>
   (\<exists>s \<in> set (stage_calls options). stage_rank s = 4) =
     truthy (opt_contrast (effective_options options)) \<and>
   (\<exists>s \<in> set (stage_calls options). stage_rank s = 5) =
     (truthy (opt_morphology (effective_options options)) \<and>
      opt_mode (effective_options options) = Some Handwritten) \<and>
   (\<exists>s \<in> set (stage_calls options). stage_rank s = 6) =
     (truthy (opt_unsharpMask (effective_options options)) \<or>
      truthy (opt_sharpen (effective_options options)) \<and>
      opt_mode (effective_options options) \<noteq> Some Handwritten) \<and>
   (\<exists>s \<in> set (stage_calls options). stage_rank s = 7) =
     (truthy (opt_adaptiveThreshold (effective_options options)) \<or>
      truthy (opt_threshold (effective_options options))) \<and>
   length (filter (\<lambda>s. stage_rank s = 3) (stage_calls options)) \<le> 1 \<and>
   (truthy (opt_bilateralFilter (effective_options options)) \<longrightarrow>
      filter (\<lambda>s. stage_rank s = 3) (stage_calls options) =
        [BilateralFilter
           (if opt_mode (effective_options options) = Some Handwritten then 3 else 2) 40 40]) \<and>
   length (filter (\<lambda>s. stage_rank s = 7) (stage_calls options)) \<le> 1 \<and>
   (truthy (opt_adaptiveThreshold (effective_options options)) \<or>
    truthy (opt_threshold (effective_options options)) \<longrightarrow>
      stage_calls options \<noteq> [] \<and> stage_rank (last (stage_calls options)) = 7)"
  unfolding rank_calls
  by (intro conjI impI preprocess_fold stage_calls_sorted stage_calls_present
      step_noise_calls step_threshold_calls)
    (simp_all add: stage_calls_last)

theorem pipeline_stage_order_witness:
  "stage_calls
     (queue_options ((handleModeChange Handwritten)\<lparr>opt_denoise := Some True\<rparr>) Handwritten) =
     [Upscale 2, ToGrayscale, Deskew, BilateralFilter 3 40 40, IncreaseContrast 1.8, Opening 2,
      Closing 3, UnsharpMask 2 1, AdaptiveThreshold 31 12] \<and>
   truthy (opt_bilateralFilter (effective_options
     (queue_options ((handleModeChange Handwritten)\<lparr>opt_denoise := Some True\<rparr>) Handwritten))) \<and>
   truthy (opt_denoise (effective_options
     (queue_options ((handleModeChange Handwritten)\<lparr>opt_denoise := Some True\<rparr>) Handwritten))) \<and>
   filter (\<lambda>s. stage_rank s = 3) (stage_calls
     (queue_options ((handleModeChange Handwritten)\<lparr>opt_denoise := Some True\<rparr>) Handwritten)) =
     [BilateralFilter 3 40 40] \<and>
   stage_rank (last (stage_calls
     (queue_options ((handleModeChange Handwritten)\<lparr>opt_denoise := Some True\<rparr>) Handwritten))) = 7 \<and>
   preprocess record_call
     (queue_options ((handleModeChange Handwritten)\<lparr>opt_denoise := Some True\<rparr>) Handwritten)
     [Threshold] =
     [Threshold, Upscale 2, ToGrayscale, Deskew, BilateralFilter 3 40 40, IncreaseContrast 1.8,
      Opening 2, Closing 3, UnsharpMask 2 1, AdaptiveThreshold 31 12]"
proof -
  let ?o = "queue_options ((handleModeChange Handwritten)\<lparr>opt_denoise := Some True\<rparr>) Handwritten"
  note order = pipeline_stage_order [of record_call ?o "[Threshold]"]
  have calls: "stage_calls ?o =
      [Upscale 2, ToGrayscale, Deskew, BilateralFilter 3 40 40, IncreaseContrast 1.8, Opening 2,
       Closing 3, UnsharpMask 2 1, AdaptiveThreshold 31 12]"
    by (simp add: option_evals)
  have bil: "truthy (opt_bilateralFilter (effective_options ?o))"
    and den: "truthy (opt_denoise (effective_options ?o))"
    and mode: "opt_mode (effective_options ?o) = Some Handwritten"
    and ada: "truthy (opt_adaptiveThreshold (effective_options ?o))"
    by (simp_all add: option_evals)
  have run: "preprocess record_call ?o [Threshold] = fold record_call (stage_calls ?o) [Threshold]"
    using order by (rule conjunct1)
  have noise: "filter (\<lambda>s. stage_rank s = 3) (stage_calls ?o) =
      [BilateralFilter (if opt_mode (effective_options ?o) = Some Handwritten then 3 else 2) 40 40]"
    using order bil by blast
  have last: "stage_rank (last (stage_calls ?o)) = 7"
    using order ada by blast
  have run': "preprocess record_call ?o [Threshold] =
      [Threshold, Upscale 2, ToGrayscale, Deskew, BilateralFilter 3 40 40, IncreaseContrast 1.8,
       Opening 2, Closing 3, UnsharpMask 2 1, AdaptiveThreshold 31 12]"
    unfolding run calls by (simp add: record_call_def)
  have noise': "filter (\<lambda>s. stage_rank s = 3) (stage_calls ?o) = [BilateralFilter 3 40 40]"
    using noise mode by simp
  show ?thesis by (intro conjI) (rule calls bil den noise' last run')+
qed

text \<open>
  Claim C7.  The options a run of the pipeline uses are the preset of the selected
  mode with the caller's options spread over it: the mode is the selected one, and
  every toggle and every number is the caller's where the caller gives it and the
  preset's where not.  The selected mode is the caller's \<open>mode\<close>, or printed without
  one; from the batch queue it is the \<open>ocrMode\<close> of the upload zone, and the other
  fields are those the upload zone holds.
\<close>

theorem effective_options_merge:
  "opt_mode (effective_options options) = Some (selected_mode options) \<and>
   opt_mode (preset (selected_mode options)) = Some (selected_mode options) \<and>
   (\<forall>f \<in> set flag_fields.
      f (effective_options options) =
        (case f options of Some v \<Rightarrow> Some v | None \<Rightarrow> f (preset (selected_mode options)))) \<and>
   opt_contrastFactor (effective_options options) =
     (case opt_contrastFactor options of Some v \<Rightarrow> Some v
      | None \<Rightarrow> opt_contrastFactor (preset (selected_mode options))) \<and>
   opt_adaptiveBlockSize (effective_options options) =
     (case opt_adaptiveBlockSize options of Some v \<Rightarrow> Some v
      | None \<Rightarrow> opt_adaptiveBlockSize (preset (selected_mode options))) \<and>
   opt_adaptiveC (effective_options options) =
     (case opt_adaptiveC options of Some v \<Rightarrow> Some v
      | None \<Rightarrow> opt_adaptiveC (preset (selected_mode options))) \<and>
   selected_mode (queue_options preprocessingOptions ocrMode) = ocrMode \<and>
   (\<forall>f \<in> set flag_fields.
      f (queue_options preprocessingOptions ocrMode) = f preprocessingOptions) \<and>
   opt_contrastFactor (queue_options preprocessingOptions ocrMode) =
     opt_contrastFactor preprocessingOptions \<and>
   opt_adaptiveBlockSize (queue_options preprocessingOptions ocrMode) =
     opt_adaptiveBlockSize preprocessingOptions \<and>
   opt_adaptiveC (queue_options preprocessingOptions ocrMode) =
     opt_adaptiveC preprocessingOptions"
  by (intro conjI ballI effective_mode preset_mode effective_flag effective_numbers
      queue_options_fields)

theorem effective_options_merge_witness:
  "opt_deskew \<in> set flag_fields \<and> opt_upscale \<in> set flag_fields \<and>
   opt_deskew (preset Handwritten) = Some True \<and>
   opt_deskew (effective_options
     (queue_options ((handleModeChange Handwritten)\<lparr>opt_deskew := Some False\<rparr>) Handwritten)) =
     Some False \<and>
   opt_upscale (effective_options
     (queue_options ((handleModeChange Handwritten)\<lparr>opt_deskew := Some False\<rparr>) Handwritten)) =
     Some True \<and>
   opt_mode (effective_options
     (queue_options ((handleModeChange Handwritten)\<lparr>opt_deskew := Some False\<rparr>) Handwritten)) =
     Some Handwritten"
proof -
  let ?p = "(handleModeChange Handwritten)\<lparr>opt_deskew := Some False\<rparr>"
  let ?o = "queue_options ?p Handwritten"
  note merge = effective_options_merge [of ?o ?p Handwritten]
  have sel: "selected_mode ?o = Handwritten"
    using merge by blast
  have d: "opt_deskew \<in> set flag_fields" and u: "opt_upscale \<in> set flag_fields"
    by (simp_all add: flag_fields_def)
  have caller: "opt_deskew ?o = Some False" "opt_upscale ?o = None"
    by (simp_all add: queue_options_def handleModeChange_def)
  have pre: "opt_deskew (preset Handwritten) = Some True"
    "opt_upscale (preset Handwritten) = Some True"
    by (simp_all add: preset_def getDefaultHandwrittenOptions_def)
  have "opt_deskew (effective_options ?o) =
      (case opt_deskew ?o of Some v \<Rightarrow> Some v | None \<Rightarrow> opt_deskew (preset (selected_mode ?o)))"
    using merge d by blast
  then have deskew: "opt_deskew (effective_options ?o) = Some False"
    unfolding caller by simp
  have "opt_upscale (effective_options ?o) =
      (case opt_upscale ?o of Some v \<Rightarrow> Some v | None \<Rightarrow> opt_upscale (preset (selected_mode ?o)))"
    using merge u by blast
  then have upscale: "opt_upscale (effective_options ?o) = Some True"
    unfolding caller sel pre by simp
  have mode: "opt_mode (effective_options ?o) = Some Handwritten"
    using merge sel by simp
  show ?thesis by (intro conjI) (rule d u pre(1) deskew upscale mode)+
qed

section \<open>Properties of the pixel transforms\<close>

subsection \<open>Samples and the store\<close>

lemma round_half_even_of_nat: "round_half_even (real n) = int n"
  by (simp add: round_half_even_def)

lemma sample_less: "unat (v :: byte) < 256"
  using unsigned_less [of v, where ?'a = nat] by simp

lemma sample_bounds: "0 \<le> sample v \<and> sample v \<le> 255"
  using sample_less [of v] unfolding sample_def by (simp del: of_nat_unat)

lemma toUint8Clamp_sample: "toUint8Clamp (sample v) = v"
proof -
  have lt: "unat v < 256" by (rule sample_less)
  consider "unat v = 0" | "0 < unat v" "unat v < 255" | "unat v = 255" using lt by linarith
  then show ?thesis
  proof cases
    case 1
    then have "v = 0" by (simp add: unat_eq_0)
    then show ?thesis by (simp add: toUint8Clamp_def sample_def)
  next
    case 2
    then have "\<not> real (unat v) \<le> 0" "\<not> 255 \<le> real (unat v)"
      by (simp_all del: of_nat_unat)
    then have "toUint8Clamp (real (unat v)) = of_int (int (unat v))"
      unfolding toUint8Clamp_def round_half_even_of_nat by (simp del: of_nat_unat)
    then show ?thesis unfolding sample_def by simp
  next
    case 3
    then have "v = 255" by (simp add: word_eq_iff_unsigned [where ?'a = nat])
    then show ?thesis by (simp add: toUint8Clamp_def sample_def)
  qed
qed

text \<open>
  The store gives the same sample for every number less than \<open>1/2\<close> away from the
  sample's value.
\<close>

lemma round_half_even_near:
  assumes "\<bar>x - real n\<bar> < 1 / 2"
  shows "round_half_even x = int n"
proof -
  have lo: "real n - 1 / 2 < x" and hi: "x < real n + 1 / 2" using assms by linarith+
  show ?thesis
  proof (cases "real n \<le> x")
    case True
    then have "\<lfloor>x\<rfloor> = int n" using hi by (intro floor_unique) simp_all
    then show ?thesis using hi by (simp add: round_half_even_def)
  next
    case False
    then have f: "\<lfloor>x\<rfloor> = int n - 1" using lo by (intro floor_unique) simp_all
    have "1 / 2 < x - of_int (int n - 1)" using lo by simp
    then show ?thesis unfolding round_half_even_def f by (simp add: Let_def)
  qed
qed

lemma toUint8Clamp_near:
  assumes "\<bar>x - sample v\<bar> < 1 / 2"
  shows "toUint8Clamp x = v"
proof -
  have lt: "unat v < 256" by (rule sample_less)
  have r: "round_half_even x = int (unat v)"
    using assms unfolding sample_def by (rule round_half_even_near)
  have v: "(of_int (int (unat v)) :: byte) = v" by simp
  consider "x \<le> 0" | "255 \<le> x" | "0 < x" "x < 255" by linarith
  then show ?thesis
  proof cases
    case 1
    then have "real (unat v) < 1 / 2" using assms unfolding sample_def by linarith
    then have "unat v = 0" by linarith
    then have "v = 0" by (simp add: unat_eq_0)
    then show ?thesis using 1 by (simp add: toUint8Clamp_def)
  next
    case 2
    then have "254 + 1 / 2 < real (unat v)" using assms unfolding sample_def by linarith
    then have "unat v = 255" using lt by linarith
    then have "v = 255" by (simp add: word_eq_iff_unsigned [where ?'a = nat])
    then show ?thesis using 2 by (simp add: toUint8Clamp_def)
  next
    case 3
    then show ?thesis unfolding toUint8Clamp_def r v by simp
  qed
qed

subsection \<open>The error of a rounding\<close>

text \<open>
  \<open>pow2\<close> is the power of two, positive and monotone.  The exponent found by
  \<open>binade\<close> is at most \<open>k\<close> below \<open>2^(k+1)\<close>, so a rounding moves a number below
  \<open>2^(k+1)\<close> by at most half a unit in the last place, \<open>2^(k-53)\<close>; an integer below
  \<open>2^53\<close> is not moved at all.
\<close>

lemma pow2_powr: "pow2 e = 2 powr real_of_int e"
proof (cases "0 \<le> e")
  case True
  have "(2::real) powr real (nat e) = 2 ^ nat e" by (rule powr_realpow) simp
  moreover have "real (nat e) = real_of_int e" using True by simp
  ultimately show ?thesis using True by (simp add: pow2_def)
next
  case False
  have "(2::real) powr real (nat (- e)) = 2 ^ nat (- e)" by (rule powr_realpow) simp
  moreover have "real (nat (- e)) = - real_of_int e" using False by simp
  ultimately have "(2::real) powr (- real_of_int e) = 2 ^ nat (- e)" by simp
  then have "inverse ((2::real) powr real_of_int e) = 2 ^ nat (- e)"
    by (simp add: powr_minus)
  then have "inverse (inverse ((2::real) powr real_of_int e)) = inverse (2 ^ nat (- e))"
    by (rule arg_cong)
  then have "(2::real) powr real_of_int e = 1 / 2 ^ nat (- e)"
    by (simp add: divide_inverse)
  then show ?thesis using False by (simp add: pow2_def)
qed

lemma pow2_pos: "0 < pow2 e"
  by (simp add: pow2_powr)

lemma pow2_mono: "e \<le> e' \<Longrightarrow> pow2 e \<le> pow2 e'"
  by (simp add: pow2_powr)

lemma scale_down_le: "a < 2 ^ Suc k \<Longrightarrow> scale_down n a e \<le> e + int k"
proof (induction n arbitrary: a e k)
  case 0
  then show ?case by simp
next
  case (Suc n)
  show ?case
  proof (cases "a < 2")
    case True
    then show ?thesis by simp
  next
    case False
    then obtain j where k: "k = Suc j" using Suc.prems by (cases k) auto
    have "a / 2 < 2 ^ Suc j" using Suc.prems unfolding k by simp
    then have "scale_down n (a / 2) (e + 1) \<le> e + 1 + int j" by (rule Suc.IH)
    then show ?thesis using False by (simp add: k)
  qed
qed

lemma scale_up_le: "scale_up n a e \<le> e"
proof (induction n arbitrary: a e)
  case 0
  then show ?case by simp
next
  case (Suc n)
  have "scale_up n (a * 2) (e - 1) \<le> e - 1" by (rule Suc.IH)
  then show ?case by simp
qed

lemma binade_le: "a < 2 ^ Suc k \<Longrightarrow> binade a \<le> int k"
  using scale_down_le [of a k 1023 0] scale_up_le [of 1022 a 0]
  by (simp add: binade_def)

lemma round_half_even_error: "\<bar>real_of_int (round_half_even y) - y\<bar> \<le> 1 / 2"
  unfolding round_half_even_def Let_def by (auto; linarith)

lemma round_double_error:
  assumes "\<bar>x\<bar> < 2 ^ Suc k"
  shows "\<bar>round_double x - x\<bar> \<le> pow2 (int k - 53)"
proof (cases "x = 0")
  case True
  then show ?thesis using pow2_pos [of "int k - 53"] by (simp add: round_double_def)
next
  case False
  define ulp where "ulp = pow2 (binade \<bar>x\<bar> - 52)"
  have pos: "0 < ulp" unfolding ulp_def by (rule pow2_pos)
  have le: "ulp \<le> pow2 (int k - 52)"
    unfolding ulp_def using binade_le [OF assms] by (intro pow2_mono) simp
  have half: "pow2 (int k - 52) = 2 * pow2 (int k - 53)"
    by (simp add: pow2_powr powr_diff)
  have "round_double x - x = (real_of_int (round_half_even (x / ulp)) - x / ulp) * ulp"
    using False pos by (simp add: round_double_def ulp_def [symmetric] algebra_simps)
  then have "\<bar>round_double x - x\<bar> = \<bar>real_of_int (round_half_even (x / ulp)) - x / ulp\<bar> * ulp"
    using pos by (simp add: abs_mult)
  also have "\<dots> \<le> 1 / 2 * ulp"
    using round_half_even_error [of "x / ulp"] pos by (intro mult_right_mono) simp_all
  also have "\<dots> \<le> pow2 (int k - 53)" using le half by simp
  finally show ?thesis .
qed

lemma round_double_error_512: "\<bar>x\<bar> < 512 \<Longrightarrow> \<bar>round_double x - x\<bar> \<le> 1 / 2 ^ 45"
  using round_double_error [of x 8] by (simp add: pow2_def)

lemma round_double_of_int:
  assumes "\<bar>real_of_int m\<bar> < 2 ^ 53"
  shows "round_double (real_of_int m) = real_of_int m"
proof (cases "m = 0")
  case True
  then show ?thesis by (simp add: round_double_def)
next
  case False
  define d where "d = nat (52 - binade \<bar>real_of_int m\<bar>)"
  have "binade \<bar>real_of_int m\<bar> \<le> 52" using binade_le [of "\<bar>real_of_int m\<bar>" 52] assms by simp
  then have ulp: "pow2 (binade \<bar>real_of_int m\<bar> - 52) = 1 / 2 ^ d"
    by (cases "binade \<bar>real_of_int m\<bar> = 52") (simp_all add: pow2_def d_def)
  have "real_of_int m / (1 / 2 ^ d) = real_of_int (m * 2 ^ d)" by simp
  then have "round_half_even (real_of_int m / (1 / 2 ^ d)) = m * 2 ^ d"
    by (simp only: round_half_even_def Let_def floor_of_int) simp
  then show ?thesis using False by (simp add: round_double_def ulp)
qed

text \<open>
  In the range of the normal numbers \<open>binade\<close> finds the exponent: the magnitude
  lies between \<open>2^e\<close> and \<open>2^(e+1)\<close>.
\<close>

lemma scale_down_spec:
  "1 \<le> a \<Longrightarrow> a < 2 ^ Suc k \<Longrightarrow> k \<le> n \<Longrightarrow>
   \<exists>j. scale_down n a e = e + int j \<and> 2 ^ j \<le> a \<and> a < 2 ^ Suc j"
proof (induction n arbitrary: a e k)
  case 0
  then have "scale_down 0 a e = e + int 0 \<and> 2 ^ 0 \<le> a \<and> a < 2 ^ Suc 0" by simp
  then show ?case by blast
next
  case (Suc n)
  show ?case
  proof (cases "a < 2")
    case True
    then have "scale_down (Suc n) a e = e + int 0 \<and> 2 ^ 0 \<le> a \<and> a < 2 ^ Suc 0"
      using Suc.prems by simp
    then show ?thesis by blast
  next
    case False
    then obtain k' where k: "k = Suc k'" using Suc.prems by (cases k) auto
    have "1 \<le> a / 2" "a / 2 < 2 ^ Suc k'" "k' \<le> n" using False Suc.prems unfolding k by simp_all
    then obtain j where j: "scale_down n (a / 2) (e + 1) = e + 1 + int j"
      "2 ^ j \<le> a / 2" "a / 2 < 2 ^ Suc j"
      using Suc.IH [of "a / 2" k' "e + 1"] by blast
    have "scale_down (Suc n) a e = e + int (Suc j) \<and> 2 ^ Suc j \<le> a \<and> a < 2 ^ Suc (Suc j)"
      using False j by simp
    then show ?thesis by blast
  qed
qed

lemma scale_up_spec:
  "0 < a \<Longrightarrow> a < 1 \<Longrightarrow> 1 \<le> a * 2 ^ k \<Longrightarrow> k \<le> n \<Longrightarrow>
   \<exists>j. scale_up n a e = e - int j \<and> 1 \<le> a * 2 ^ j \<and> a * 2 ^ j < 2"
proof (induction n arbitrary: a e k)
  case 0
  then show ?case by simp
next
  case (Suc n)
  obtain k' where k: "k = Suc k'" using Suc.prems by (cases k) auto
  show ?case
  proof (cases "1 \<le> a * 2")
    case True
    then have "scale_up n (a * 2) (e - 1) = e - 1" by (cases n) simp_all
    then have "scale_up (Suc n) a e = e - int 1 \<and> 1 \<le> a * 2 ^ 1 \<and> a * 2 ^ 1 < 2"
      using True Suc.prems by simp
    then show ?thesis by blast
  next
    case False
    have "0 < a * 2" "a * 2 < 1" "1 \<le> a * 2 * 2 ^ k'" "k' \<le> n"
      using False Suc.prems unfolding k by (simp_all add: mult.assoc)
    then obtain j where j: "scale_up n (a * 2) (e - 1) = e - 1 - int j"
      "1 \<le> a * 2 * 2 ^ j" "a * 2 * 2 ^ j < 2"
      using Suc.IH [of "a * 2" k' "e - 1"] by blast
    have "scale_up (Suc n) a e = e - int (Suc j) \<and> 1 \<le> a * 2 ^ Suc j \<and> a * 2 ^ Suc j < 2"
      using Suc.prems j by (simp add: mult.assoc)
    then show ?thesis by blast
  qed
qed

lemma binade_spec:
  assumes "1 / 2 ^ 1022 \<le> a" "a < 2 ^ 1024"
  shows "pow2 (binade a) \<le> a \<and> a < 2 * pow2 (binade a)"
proof (cases "1 \<le> a")
  case True
  obtain j where j: "scale_down 1023 a 0 = 0 + int j" "2 ^ j \<le> a" "a < 2 ^ Suc j"
    using scale_down_spec [of a 1023 1023 0] True assms by auto
  have "binade a = int j" using True j by (simp add: binade_def)
  then show ?thesis using j by (simp add: pow2_def)
next
  case False
  have pos: "0 < a" using assms(1) by (rule less_le_trans [rotated]) simp
  have "1 \<le> a * 2 ^ 1022" using assms(1) by (simp add: field_simps)
  then obtain j where j: "scale_up 1022 a 0 = 0 - int j" "1 \<le> a * 2 ^ j" "a * 2 ^ j < 2"
    using scale_up_spec [of a 1022 1022 0] False pos by auto
  have b: "binade a = - int j" using False j by (simp add: binade_def)
  have p: "pow2 (- int j) = 1 / 2 ^ j" by (cases "j = 0") (simp_all add: pow2_def)
  show ?thesis unfolding b p using j by (simp add: field_simps)
qed

subsection \<open>The luminance of a gray pixel\<close>

text \<open>
  On a pixel with \<open>R = G = B = v\<close> the eight roundings of the luminance move the
  result off \<open>v\<close> by less than \<open>770 / 2^45\<close> (the weights add up to 1 before they
  are rounded), so the store gives \<open>v\<close> back.
\<close>

lemma product_error:
  assumes n: "0 \<le> n" "n \<le> 255" and c: "0 \<le> c" "c \<le> 1"
  shows "\<bar>round_double (n * round_double c) - n * c\<bar> \<le> 256 / 2 ^ 45"
proof -
  define c' where "c' = round_double c"
  have e1: "\<bar>c' - c\<bar> \<le> 1 / 2 ^ 45"
    unfolding c'_def using c by (intro round_double_error_512) simp
  have c': "0 \<le> c' + 1 / 2 ^ 45" "c' \<le> 1 + 1 / 2 ^ 45" using e1 c by linarith+
  have "\<bar>n * c'\<bar> = n * \<bar>c'\<bar>" using n by (simp add: abs_mult)
  also have "\<dots> \<le> 255 * 2" using n c' by (intro mult_mono) simp_all
  finally have "\<bar>n * c'\<bar> < 512" by simp
  then have e2: "\<bar>round_double (n * c') - n * c'\<bar> \<le> 1 / 2 ^ 45"
    by (rule round_double_error_512)
  have "\<bar>n * c' - n * c\<bar> = n * \<bar>c' - c\<bar>"
    using n by (simp add: abs_mult right_diff_distrib [symmetric])
  also have "\<dots> \<le> 255 * (1 / 2 ^ 45)" using n e1 by (intro mult_mono) simp_all
  finally have e3: "\<bar>n * c' - n * c\<bar> \<le> 255 / 2 ^ 45" by simp
  show ?thesis using e2 e3 unfolding c'_def by linarith
qed

lemma luminance_error:
  "\<bar>luminance r g b - (sample r * 0.299 + sample g * 0.587 + sample b * 0.114)\<bar>
     \<le> 770 / 2 ^ 45"
proof -
  define p1 where "p1 = round_double (sample r * round_double 0.299)"
  define p2 where "p2 = round_double (sample g * round_double 0.587)"
  define p3 where "p3 = round_double (sample b * round_double 0.114)"
  define s1 where "s1 = round_double (p1 + p2)"
  have r: "0 \<le> sample r" "sample r \<le> 255" using sample_bounds [of r] by simp_all
  have g: "0 \<le> sample g" "sample g \<le> 255" using sample_bounds [of g] by simp_all
  have b: "0 \<le> sample b" "sample b \<le> 255" using sample_bounds [of b] by simp_all
  have e1: "\<bar>p1 - sample r * 0.299\<bar> \<le> 256 / 2 ^ 45"
    unfolding p1_def using r by (intro product_error) simp_all
  have e2: "\<bar>p2 - sample g * 0.587\<bar> \<le> 256 / 2 ^ 45"
    unfolding p2_def using g by (intro product_error) simp_all
  have e3: "\<bar>p3 - sample b * 0.114\<bar> \<le> 256 / 2 ^ 45"
    unfolding p3_def using b by (intro product_error) simp_all
  have "\<bar>p1 + p2\<bar> < 512" using e1 e2 r g by (simp add: abs_if split: if_splits)
  then have e4: "\<bar>s1 - (p1 + p2)\<bar> \<le> 1 / 2 ^ 45"
    unfolding s1_def by (rule round_double_error_512)
  have "\<bar>s1 + p3\<bar> < 512" using e1 e2 e3 e4 r g b by (simp add: abs_if split: if_splits)
  then have e5: "\<bar>round_double (s1 + p3) - (s1 + p3)\<bar> \<le> 1 / 2 ^ 45"
    by (rule round_double_error_512)
  have "luminance r g b = round_double (s1 + p3)"
    by (simp add: luminance_def s1_def p1_def p2_def p3_def)
  then show ?thesis using e1 e2 e3 e4 e5
    by (simp add: abs_if split: if_splits)
qed

lemma luminance_gray: "\<bar>luminance v v v - sample v\<bar> < 1 / 2"
  using luminance_error [of v v v] by (simp add: abs_if split: if_splits)

text \<open>
  The stored sample is within \<open>1/2\<close> of the number stored, when that number is in
  the range of a sample or off it by \<open>d\<close> at most.
\<close>

lemma sample_of_int: "0 \<le> k \<Longrightarrow> k \<le> 255 \<Longrightarrow> sample (of_int k) = real_of_int k"
proof -
  assume k: "0 \<le> k" "k \<le> 255"
  have "unat (of_nat (nat k) :: byte) = nat k mod 2 ^ 8" by (simp add: unat_of_nat)
  also have "\<dots> = nat k" using k by simp
  finally have "unat (of_int k :: byte) = nat k" using k by simp
  then show ?thesis using k unfolding sample_def by (simp del: of_nat_unat)
qed

lemma sample_toUint8Clamp:
  assumes "0 \<le> d" "- d \<le> x" "x \<le> 255 + d"
  shows "\<bar>sample (toUint8Clamp x) - x\<bar> \<le> 1 / 2 + d"
proof -
  consider "x \<le> 0" | "255 \<le> x" | "0 < x" "x < 255" by linarith
  then show ?thesis
  proof cases
    case 1
    then show ?thesis using assms by (simp add: toUint8Clamp_def sample_def)
  next
    case 2
    then show ?thesis using assms by (simp add: toUint8Clamp_def sample_def)
  next
    case 3
    define k where "k = round_half_even x"
    have e: "\<bar>real_of_int k - x\<bar> \<le> 1 / 2" unfolding k_def by (rule round_half_even_error)
    have "- 1 < real_of_int k" "real_of_int k < 256" using e 3 by linarith+
    then have k: "0 \<le> k" "k \<le> 255" by linarith+
    have "toUint8Clamp x = of_int k" using 3 by (simp add: toUint8Clamp_def k_def)
    then have "sample (toUint8Clamp x) = real_of_int k" using k by (simp add: sample_of_int)
    then show ?thesis using e assms by linarith
  qed
qed

lemma stored_luminance_error:
  "\<bar>sample (toUint8Clamp (luminance r g b)) -
     (sample r * 0.299 + sample g * 0.587 + sample b * 0.114)\<bar> \<le> 1 / 2 + 1 / 2 ^ 34"
proof -
  define y where "y = sample r * 0.299 + sample g * 0.587 + sample b * 0.114"
  have y: "0 \<le> y" "y \<le> 255"
    using sample_bounds [of r] sample_bounds [of g] sample_bounds [of b] by (simp_all add: y_def)
  have e: "\<bar>luminance r g b - y\<bar> \<le> 770 / 2 ^ 45" unfolding y_def by (rule luminance_error)
  have a: "\<bar>sample (toUint8Clamp (luminance r g b)) - luminance r g b\<bar> \<le> 1 / 2 + 770 / 2 ^ 45"
    using e y by (intro sample_toUint8Clamp) (simp, linarith, linarith)
  have c: "(770 :: real) / 2 ^ 45 + 770 / 2 ^ 45 \<le> 1 / 2 ^ 34" by simp
  show ?thesis unfolding y_def [symmetric] using a e c by linarith
qed

lemma gray_fixed: "toUint8Clamp (luminance v v v) = v"
  by (rule toUint8Clamp_near) (rule luminance_gray)

subsection \<open>\<open>toGrayscale\<close> on the buffer\<close>

lemma toGrayscale_data_idem: "toGrayscale_data (toGrayscale_data xs) = toGrayscale_data xs"
  by (induction xs rule: toGrayscale_data.induct)
    (simp_all add: Let_def gray_fixed)

lemma length_toGrayscale_data: "length (toGrayscale_data xs) = length xs"
  by (induction xs rule: toGrayscale_data.induct) (simp_all add: Let_def)

lemma nth_skip4: "(a # b # c # d # xs) ! (4 * Suc j + k) = xs ! (4 * j + k)"
  by (simp add: numeral_eq_Suc)

lemma nth_skip4_0: "(a # b # c # d # xs) ! (4 * Suc j) = xs ! (4 * j)"
  using nth_skip4 [of a b c d xs j 0] by simp

lemma toGrayscale_data_alpha:
  "4 * i + 3 < length xs \<Longrightarrow> toGrayscale_data xs ! (4 * i + 3) = xs ! (4 * i + 3)"
proof (induction xs arbitrary: i rule: toGrayscale_data.induct)
  case (1 r g b a rest)
  show ?case
  proof (cases i)
    case 0
    then show ?thesis by (simp add: Let_def)
  next
    case (Suc j)
    then have "4 * j + 3 < length rest" using "1.prems" by simp
    then have "toGrayscale_data rest ! (4 * j + 3) = rest ! (4 * j + 3)" using "1.IH" by simp
    then show ?thesis unfolding Suc by (simp only: toGrayscale_data.simps Let_def nth_skip4 nth_skip4_0)
  qed
qed simp_all

lemma toGrayscale_data_rgb:
  "4 * i + 3 < length xs \<Longrightarrow>
   toGrayscale_data xs ! (4 * i) =
     toUint8Clamp (luminance (xs ! (4 * i)) (xs ! (4 * i + 1)) (xs ! (4 * i + 2))) \<and>
   toGrayscale_data xs ! (4 * i + 1) = toGrayscale_data xs ! (4 * i) \<and>
   toGrayscale_data xs ! (4 * i + 2) = toGrayscale_data xs ! (4 * i)"
proof (induction xs arbitrary: i rule: toGrayscale_data.induct)
  case (1 r g b a rest)
  show ?case
  proof (cases i)
    case 0
    then show ?thesis by (simp add: Let_def)
  next
    case (Suc j)
    then have "4 * j + 3 < length rest" using "1.prems" by simp
    then have "toGrayscale_data rest ! (4 * j) =
        toUint8Clamp (luminance (rest ! (4 * j)) (rest ! (4 * j + 1)) (rest ! (4 * j + 2))) \<and>
      toGrayscale_data rest ! (4 * j + 1) = toGrayscale_data rest ! (4 * j) \<and>
      toGrayscale_data rest ! (4 * j + 2) = toGrayscale_data rest ! (4 * j)"
      using "1.IH" by simp
    then show ?thesis unfolding Suc by (simp only: toGrayscale_data.simps Let_def nth_skip4 nth_skip4_0)
  qed
qed simp_all

subsection \<open>The Otsu scan\<close>

declare otsu_scan.simps [simp del]

lemma otsu_scan_skip:
  "t < 256 \<Longrightarrow> wB + real (h ! t) = 0 \<Longrightarrow>
   otsu_scan h tot s t sumB wB mv thr = otsu_scan h tot s (t + 1) sumB 0 mv thr"
  by (subst otsu_scan.simps) (simp add: Let_def)

lemma otsu_scan_break:
  "t < 256 \<Longrightarrow> wB + real (h ! t) \<noteq> 0 \<Longrightarrow> tot - (wB + real (h ! t)) = 0 \<Longrightarrow>
   otsu_scan h tot s t sumB wB mv thr = Some thr"
  by (subst otsu_scan.simps) (simp add: Let_def)

lemma otsu_scan_end: "\<not> t < 256 \<Longrightarrow> otsu_scan h tot s t sumB wB mv thr = Some thr"
  by (subst otsu_scan.simps) simp

lemma background_weight_Suc:
  "Suc t < length h \<Longrightarrow> background_weight h (Suc t) = background_weight h t + real (h ! Suc t)"
  by (simp add: background_weight_def take_Suc_conv_app_nth [of "Suc t"])

lemma otsu_scan_result:
  "length h = 256 \<Longrightarrow> wB = real (sum_list (take t h)) \<Longrightarrow>
   \<exists>r. otsu_scan h tot s t sumB wB mv thr = Some r \<and>
       (r = thr \<or> (t \<le> r \<and> r < 256 \<and> valid_candidate h tot r))"
proof (induction h tot s t sumB wB mv thr rule: otsu_scan.induct)
  case (1 h tot s t sumB wB mv thr)
  show ?case
  proof (cases "t < 256")
    case False
    then show ?thesis by (simp add: otsu_scan_end)
  next
    case True
    define wB' where "wB' = wB + real (h ! t)"
    have wB': "wB' = real (sum_list (take (t + 1) h))"
      using True 1(4,5) by (simp add: wB'_def take_Suc_conv_app_nth)
    have bw: "background_weight h t = wB'"
      using wB' by (simp add: background_weight_def)
    show ?thesis
    proof (cases "wB' = 0")
      case z: True
      have "\<exists>r. otsu_scan h tot s (t + 1) sumB wB' mv thr = Some r \<and>
          (r = thr \<or> (t + 1 \<le> r \<and> r < 256 \<and> valid_candidate h tot r))"
        using 1(1) [OF True wB'_def z 1(4) wB'] .
      then show ?thesis
        using True z otsu_scan_skip [of t wB h tot s sumB mv thr]
        by (auto simp: wB'_def)
    next
      case nz: False
      define wF where "wF = tot - wB'"
      show ?thesis
      proof (cases "wF = 0")
        case True
        then show ?thesis
          using \<open>t < 256\<close> nz otsu_scan_break [of t wB h tot s sumB mv thr]
          by (simp add: wB'_def wF_def)
      next
        case fnz: False
        define sumB' where "sumB' = sumB + real t * real (h ! t)"
        define mB where "mB = round_double (sumB' / wB')"
        define mF where "mF = round_double ((s - sumB') / wF)"
        define variance where "variance =
          round_double (round_double (round_double (wB' * wF) * round_double (mB - mF)) *
                        round_double (mB - mF))"
        have jB: "double_div sumB' wB' = Some mB" using nz by (simp add: double_div_def mB_def)
        have jF: "double_div (s - sumB') wF = Some mF"
          using fnz by (simp add: double_div_def mF_def)
        have valid: "valid_candidate h tot t"
          using nz fnz by (simp add: valid_candidate_def bw wF_def)
        show ?thesis
        proof (cases "variance > mv")
          case gt: True
          have "\<exists>r. otsu_scan h tot s (t + 1) sumB' wB' variance t = Some r \<and>
              (r = t \<or> (t + 1 \<le> r \<and> r < 256 \<and> valid_candidate h tot r))"
            using 1(2) [OF True wB'_def nz wF_def fnz sumB'_def jB jF variance_def gt 1(4) wB'] .
          moreover have "otsu_scan h tot s t sumB wB mv thr =
              otsu_scan h tot s (t + 1) sumB' wB' variance t"
            using True nz fnz gt jB jF
            by (subst otsu_scan.simps)
              (simp add: Let_def wB'_def [symmetric] wF_def [symmetric] sumB'_def [symmetric]
                variance_def [symmetric])
          ultimately show ?thesis using True valid by auto
        next
          case le: False
          have "\<exists>r. otsu_scan h tot s (t + 1) sumB' wB' mv thr = Some r \<and>
              (r = thr \<or> (t + 1 \<le> r \<and> r < 256 \<and> valid_candidate h tot r))"
            using 1(3) [OF True wB'_def nz wF_def fnz sumB'_def jB jF variance_def le 1(4) wB'] .
          moreover have "otsu_scan h tot s t sumB wB mv thr =
              otsu_scan h tot s (t + 1) sumB' wB' mv thr"
            using True nz fnz le jB jF
            by (subst otsu_scan.simps)
              (simp add: Let_def wB'_def [symmetric] wF_def [symmetric] sumB'_def [symmetric]
                variance_def [symmetric])
          ultimately show ?thesis by auto
        qed
      qed
    qed
  qed
qed

lemma length_build_histogram: "length (build_histogram xs h) = length h"
  by (induction xs h rule: build_histogram.induct) simp_all

lemma build_histogram_uniform:
  "(\<forall>i. 4 * i < length xs \<longrightarrow> xs ! (4 * i) = v) \<Longrightarrow> unat v < length h \<Longrightarrow>
   build_histogram xs h = h[unat v := h ! unat v + (length xs + 3) div 4]"
proof (induction xs h rule: build_histogram.induct)
  case (1 h)
  then show ?case by simp
next
  case (2 r rest h)
  have r: "r = v" using "2.prems"(1) [rule_format, of 0] by simp
  have tail: "\<forall>i. 4 * i < length (drop 3 rest) \<longrightarrow> drop 3 rest ! (4 * i) = v"
  proof (intro allI impI)
    fix i assume "4 * i < length (drop 3 rest)"
    then have lt: "4 * i + 3 < length rest" by simp
    then have "(r # rest) ! (4 * Suc i) = v" using "2.prems"(1) [rule_format, of "Suc i"] by simp
    moreover have "(r # rest) ! (4 * Suc i) = rest ! (3 + 4 * i)" by (simp add: numeral_eq_Suc)
    ultimately show "drop 3 rest ! (4 * i) = v" using lt by simp
  qed
  have len: "Suc ((length (drop 3 rest) + 3) div 4) = (length (r # rest) + 3) div 4"
    by (cases "3 \<le> length rest") auto
  have "build_histogram (r # rest) h =
      build_histogram (drop 3 rest) (h[unat v := Suc (h ! unat v)])"
    by (simp add: r)
  also have "\<dots> = (h[unat v := Suc (h ! unat v)])
      [unat v := (h[unat v := Suc (h ! unat v)]) ! unat v + (length (drop 3 rest) + 3) div 4]"
    using "2.IH" [OF tail] "2.prems"(2) by (simp add: r)
  also have "\<dots> = h[unat v := h ! unat v + (length (r # rest) + 3) div 4]"
    using "2.prems"(2) len by simp
  finally show ?case .
qed

lemma otsu_scan_zeros:
  "(\<forall>j. t \<le> j \<and> j < u \<longrightarrow> h ! j = 0) \<Longrightarrow> t \<le> u \<Longrightarrow> u \<le> 256 \<Longrightarrow>
   otsu_scan h tot s t sumB 0 mv thr = otsu_scan h tot s u sumB 0 mv thr"
proof (induction "u - t" arbitrary: t)
  case 0
  then show ?case by simp
next
  case (Suc n)
  then have lt: "t < u" and "h ! t = 0" by auto
  then have "otsu_scan h tot s t sumB 0 mv thr = otsu_scan h tot s (t + 1) sumB 0 mv thr"
    using Suc.prems(3) by (simp add: otsu_scan_skip)
  also have "\<dots> = otsu_scan h tot s u sumB 0 mv thr"
    using Suc.hyps(1) [of "t + 1"] Suc.hyps(2) Suc.prems lt by simp
  finally show ?case .
qed

lemma otsu_uniform:
  assumes uni: "\<forall>i. 4 * i < length (data img) \<longrightarrow> data img ! (4 * i) = v"
    and wf: "well_formed img"
  shows "calculateOtsuThreshold img = Some 0"
proof -
  define k where "k = width img * height img"
  define h where "h = build_histogram (data img) (replicate 256 0)"
  have len: "length (data img) = 4 * k" using wf by (simp add: well_formed_def k_def)
  have u: "unat v < 256" using unsigned_less [of v, where ?'a = nat] by simp
  have h: "h = (replicate 256 0)[unat v := k]"
    unfolding h_def using build_histogram_uniform [OF uni, of "replicate 256 0"] u len by simp
  have tot: "real (length (data img)) / 4 = real k" using len by simp
  have scan: "calculateOtsuThreshold img = otsu_scan h (real k) (histogram_sum h) 0 0 0 0 0"
    by (simp add: calculateOtsuThreshold_def Let_def h_def [symmetric] tot)
  show ?thesis
  proof (cases "k = 0")
    case True
    have "replicate 256 (0::nat) ! unat v = 0" using u by (simp only: nth_replicate)
    then have "h = replicate 256 0" unfolding h True by (metis list_update_id)
    then have "\<forall>j. 0 \<le> j \<and> j < 256 \<longrightarrow> h ! j = 0" by simp
    then have "otsu_scan h (real k) (histogram_sum h) 0 0 0 0 0 =
        otsu_scan h (real k) (histogram_sum h) 256 0 0 0 0"
      by (intro otsu_scan_zeros) simp_all
    then show ?thesis using scan by (simp add: otsu_scan_end)
  next
    case False
    have "\<forall>j. 0 \<le> j \<and> j < unat v \<longrightarrow> h ! j = 0" using h u by simp
    then have "otsu_scan h (real k) (histogram_sum h) 0 0 0 0 0 =
        otsu_scan h (real k) (histogram_sum h) (unat v) 0 0 0 0"
      using u by (intro otsu_scan_zeros) simp_all
    also have "\<dots> = Some 0"
      using u False h by (intro otsu_scan_break) simp_all
    finally show ?thesis using scan by simp
  qed
qed

lemma otsu_total:
  "\<exists>t. calculateOtsuThreshold img = Some t \<and> t < 256 \<and>
     (t = 0 \<or> valid_candidate (build_histogram (data img) (replicate 256 0))
        (real (length (data img)) / 4) t)"
proof -
  have "\<exists>r. otsu_scan (build_histogram (data img) (replicate 256 0))
        (real (length (data img)) / 4)
        (histogram_sum (build_histogram (data img) (replicate 256 0))) 0 0 0 0 0 = Some r \<and>
       (r = 0 \<or> (0 \<le> r \<and> r < 256 \<and>
          valid_candidate (build_histogram (data img) (replicate 256 0))
            (real (length (data img)) / 4) r))"
    by (rule otsu_scan_result) (simp_all add: length_build_histogram)
  then show ?thesis by (auto simp: calculateOtsuThreshold_def Let_def)
qed

text \<open>
  The scan on a buffer with the R samples 0, 1, 1, 2.  The between-class variances
  at \<open>t = 0\<close> and \<open>t = 1\<close> are both \<open>16/3\<close> before rounding; binary64 gives
  \<open>5.333333333333333\<close> for the first and \<open>5.333333333333334\<close> for the second, so the
  second candidate replaces the first.
\<close>

lemma fold_add_upt: "fold (\<lambda>i s. s + g i) [0..<n] z = z + (\<Sum>i<n. g i)" for g :: "nat \<Rightarrow> real"
  by (induction n) simp_all

lemma histogram_sum_sum: "histogram_sum h = (\<Sum>i<256. real i * real (h ! i))"
  unfolding histogram_sum_def fold_add_upt by simp

lemma histogram_sum_zeros: "histogram_sum (replicate 256 0) = 0"
  unfolding histogram_sum_sum by simp

lemma histogram_sum_update:
  assumes "k < 256" "length h = 256"
  shows "histogram_sum (h[k := v]) = histogram_sum h + real k * (real v - real (h ! k))"
proof -
  have "(\<Sum>i<256. real i * real (h[k := v] ! i)) =
      (\<Sum>i<256. real i * real (h ! i) + (if i = k then real k * (real v - real (h ! k)) else 0))"
    using assms by (intro sum.cong) (auto simp: nth_list_update algebra_simps)
  also have "\<dots> = (\<Sum>i<256. real i * real (h ! i)) + real k * (real v - real (h ! k))"
    using assms by (simp add: sum.distrib)
  finally show ?thesis unfolding histogram_sum_sum .
qed

lemma otsu_scan_take:
  assumes "t < 256" "wB' = wB + real (h ! t)" "wB' \<noteq> 0" "wF = tot - wB'" "wF \<noteq> 0"
    and "sumB' = sumB + real t * real (h ! t)"
    and "variance =
      round_double
        (round_double (round_double (wB' * wF) *
           round_double (round_double (sumB' / wB') - round_double ((s - sumB') / wF))) *
         round_double (round_double (sumB' / wB') - round_double ((s - sumB') / wF)))"
    and "variance > mv"
  shows "otsu_scan h tot s t sumB wB mv thr = otsu_scan h tot s (Suc t) sumB' wB' variance t"
  using assms(1,3,5,8) unfolding assms(2,4,6,7)
  by (subst otsu_scan.simps) (simp add: Let_def double_div_def)

lemma otsu_two_maxima:
  "calculateOtsuThreshold \<lparr>width = 4, height = 1,
      data = [0, 0, 0, 255, 1, 1, 1, 255, 1, 1, 1, 255, 2, 2, 2, 9]\<rparr> = Some 1"
proof -
  define h where "h = build_histogram
      [0, 0, 0, 255, 1, 1, 1, 255, 1, 1, 1, 255, 2, 2, 2, 9 :: byte] (replicate 256 0)"
  have "h ! 2 = 1" by (simp add: h_def)
  then have h2: "h ! Suc (Suc 0) = 1" by (simp add: numeral_2_eq_2)
  have "h ! 0 = 1" "h ! Suc 0 = 2" by (simp_all add: h_def)
  note h = this h2
  have s: "histogram_sum h = 4"
    unfolding h_def by (simp add: histogram_sum_update histogram_sum_zeros)
  let ?v0 = "6004799503160661 / 1125899906842624 :: real"
  let ?v1 = "3002399751580331 / 562949953421312 :: real"
  have v0: "?v0 =
      round_double
        (round_double (round_double (1 * 3) *
           round_double (round_double (0 / 1) - round_double ((4 - 0) / 3))) *
         round_double (round_double (0 / 1) - round_double ((4 - 0) / 3)))"
    by code_simp
  have v1: "?v1 =
      round_double
        (round_double (round_double (3 * 1) *
           round_double (round_double (2 / 3) - round_double ((4 - 2) / 1))) *
         round_double (round_double (2 / 3) - round_double ((4 - 2) / 1)))"
    by code_simp
  have "calculateOtsuThreshold \<lparr>width = 4, height = 1,
      data = [0, 0, 0, 255, 1, 1, 1, 255, 1, 1, 1, 255, 2, 2, 2, 9]\<rparr> =
      otsu_scan h (real (length [0, 0, 0, 255, 1, 1, 1, 255, 1, 1, 1, 255, 2, 2, 2, 9 :: byte]) / 4)
        (histogram_sum h) 0 0 0 0 0"
    unfolding calculateOtsuThreshold_def Let_def h_def by (simp only: ImageData.select_convs)
  also have "\<dots> = otsu_scan h 4 4 0 0 0 0 0"
    unfolding s by simp
  also have "\<dots> = otsu_scan h 4 4 (Suc 0) 0 1 ?v0 0"
    by (rule otsu_scan_take [where wF = 3, OF _ _ _ _ _ _ v0]) (simp_all add: h)
  also have "\<dots> = otsu_scan h 4 4 (Suc (Suc 0)) 2 3 ?v1 (Suc 0)"
    by (rule otsu_scan_take [where wF = 1, OF _ _ _ _ _ _ v1]) (simp_all add: h)
  also have "\<dots> = Some (Suc 0)"
    by (rule otsu_scan_break) (simp_all add: h)
  finally show ?thesis by simp
qed

subsection \<open>\<open>threshold\<close>\<close>

lemma length_threshold_data: "length (threshold_data t xs) = length xs"
  by (induction t xs rule: threshold_data.induct) (simp_all add: Let_def)

lemma threshold_data_binary:
  "4 * i < length xs \<Longrightarrow>
   threshold_data t xs ! (4 * i) = 0 \<or> threshold_data t xs ! (4 * i) = 255"
proof (induction t xs arbitrary: i rule: threshold_data.induct)
  case (1 t gray g b a rest)
  show ?case
  proof (cases i)
    case 0
    then show ?thesis by (simp add: Let_def)
  next
    case (Suc j)
    then have "4 * j < length rest" using "1.prems" by simp
    then have "threshold_data t rest ! (4 * j) = 0 \<or> threshold_data t rest ! (4 * j) = 255"
      using "1.IH" by simp
    then show ?thesis unfolding Suc by (simp only: threshold_data.simps Let_def nth_skip4 nth_skip4_0)
  qed
next
  case (2 t gray g b)
  then show ?case by (cases i) (simp_all add: Let_def)
next
  case (3 t gray g)
  then show ?case by (cases i) (simp_all add: Let_def)
next
  case (4 t gray)
  then show ?case by (cases i) (simp_all add: Let_def)
next
  case (5 t)
  then show ?case by simp
qed

lemma threshold_data_red:
  "4 * i < length xs \<Longrightarrow>
   threshold_data t xs ! (4 * i) = (if sample (xs ! (4 * i)) > t then 255 else 0)"
proof (induction t xs arbitrary: i rule: threshold_data.induct)
  case (1 t gray g b a rest)
  show ?case
  proof (cases i)
    case 0
    then show ?thesis by (simp add: Let_def)
  next
    case (Suc j)
    then have "4 * j < length rest" using "1.prems" by simp
    then have "threshold_data t rest ! (4 * j) = (if sample (rest ! (4 * j)) > t then 255 else 0)"
      using "1.IH" by simp
    then show ?thesis unfolding Suc by (simp only: threshold_data.simps Let_def nth_skip4 nth_skip4_0)
  qed
next
  case (2 t gray g b)
  then show ?case by (cases i) (simp_all add: Let_def)
next
  case (3 t gray g)
  then show ?case by (cases i) (simp_all add: Let_def)
next
  case (4 t gray)
  then show ?case by (cases i) (simp_all add: Let_def)
next
  case (5 t)
  then show ?case by simp
qed

lemma threshold_data_pixel:
  "4 * i + 3 < length xs \<Longrightarrow>
   threshold_data t xs ! (4 * i + 1) = threshold_data t xs ! (4 * i) \<and>
   threshold_data t xs ! (4 * i + 2) = threshold_data t xs ! (4 * i) \<and>
   threshold_data t xs ! (4 * i + 3) = xs ! (4 * i + 3)"
proof (induction t xs arbitrary: i rule: threshold_data.induct)
  case (1 t gray g b a rest)
  show ?case
  proof (cases i)
    case 0
    then show ?thesis by (simp add: Let_def)
  next
    case (Suc j)
    then have "4 * j + 3 < length rest" using "1.prems" by simp
    then have "threshold_data t rest ! (4 * j + 1) = threshold_data t rest ! (4 * j) \<and>
      threshold_data t rest ! (4 * j + 2) = threshold_data t rest ! (4 * j) \<and>
      threshold_data t rest ! (4 * j + 3) = rest ! (4 * j + 3)"
      using "1.IH" by simp
    then show ?thesis unfolding Suc by (simp only: threshold_data.simps Let_def nth_skip4 nth_skip4_0)
  qed
qed simp_all

text \<open>
  The value the samples are compared with: the given one, else the Otsu value of
  the buffer as it came in.
\<close>

lemma threshold_value:
  "\<exists>t. threshold imageData thresholdValue =
         Some (imageData\<lparr>data := threshold_data t (data imageData)\<rparr>) \<and>
       (case thresholdValue of
          Some v \<Rightarrow> t = v
        | None \<Rightarrow> \<exists>r. calculateOtsuThreshold imageData = Some r \<and> r < 256 \<and> t = real r)"
proof (cases thresholdValue)
  case None
  obtain r where "calculateOtsuThreshold imageData = Some r" "r < 256"
    using otsu_total by blast
  then show ?thesis using None by (auto simp: threshold_def)
next
  case (Some v)
  then show ?thesis by (auto simp: threshold_def)
qed

lemma threshold_returns:
  "\<exists>t. threshold imageData thresholdValue =
     Some (imageData\<lparr>data := threshold_data t (data imageData)\<rparr>)"
proof (cases thresholdValue)
  case None
  obtain r where "calculateOtsuThreshold imageData = Some r" using otsu_total by blast
  then show ?thesis using None by (auto simp: threshold_def)
next
  case (Some v)
  then show ?thesis by (auto simp: threshold_def)
qed

subsection \<open>The integral image and the adaptive threshold\<close>

lemma cell_inj:
  assumes "c \<le> w" "c' \<le> w"
  shows "(cell w r c = cell w r' c') = (r = r' \<and> c = c')"
proof
  assume eq: "cell w r c = cell w r' c'"
  have "(r * (w + 1) + c) div (w + 1) = r + c div (w + 1)"
    by (rule div_mult_self3) simp
  moreover have "(r' * (w + 1) + c') div (w + 1) = r' + c' div (w + 1)"
    by (rule div_mult_self3) simp
  ultimately have "r = r'" using eq assms by (simp add: cell_def)
  then show "r = r' \<and> c = c'" using eq by (simp add: cell_def)
qed simp

lemma cell_less:
  assumes "r \<le> h" "c \<le> w"
  shows "cell w r c < (w + 1) * (h + 1)"
proof -
  have "r * (w + 1) + c < r * (w + 1) + (w + 1)" using assms by linarith
  also have "\<dots> = (r + 1) * (w + 1)" by (simp add: algebra_simps)
  also have "\<dots> \<le> (h + 1) * (w + 1)" using assms by (intro mult_le_mono1) simp
  finally show ?thesis by (simp add: mult.commute cell_def)
qed

lemma row_sum_Suc: "row_sum img y (Suc n) = row_sum img y n + px img y n"
  by (simp add: row_sum_def)

lemma area_sum_Suc: "area_sum img (Suc m) c = area_sum img m c + row_sum img m c"
  by (simp add: area_sum_def)

lemma row_sum_0: "row_sum img y 0 = 0"
  by (simp add: row_sum_def)

lemma area_sum_0: "area_sum img 0 c = 0" "area_sum img r 0 = 0"
  by (simp_all add: area_sum_def row_sum_def)

lemma integral_step_cell:
  "integral_step img y x (s, I) =
     (s + px img y x,
      I[cell (width img) (y + 1) (x + 1) := s + px img y x + I ! cell (width img) y (x + 1)])"
  by (simp add: integral_step_def cell_def Let_def)

lemma integral_row_fold:
  assumes "y < h" and len: "length I0 = (width img + 1) * (h + 1)"
  shows "n \<le> width img \<Longrightarrow>
    \<exists>I. fold (integral_step img y) [0..<n] (0, I0) = (row_sum img y n, I) \<and>
        length I = length I0 \<and>
        (\<forall>r c. c \<le> width img \<longrightarrow>
           I ! cell (width img) r c =
             (if r = y + 1 \<and> 1 \<le> c \<and> c \<le> n
              then row_sum img y c + I0 ! cell (width img) y c
              else I0 ! cell (width img) r c))"
proof (induction n)
  case 0
  then show ?case by (simp add: row_sum_0)
next
  case (Suc n)
  let ?w = "width img"
  from Suc obtain I where
    f: "fold (integral_step img y) [0..<n] (0, I0) = (row_sum img y n, I)" and
    l: "length I = length I0" and
    c: "\<forall>r c. c \<le> ?w \<longrightarrow>
           I ! cell ?w r c =
             (if r = y + 1 \<and> 1 \<le> c \<and> c \<le> n
              then row_sum img y c + I0 ! cell ?w y c
              else I0 ! cell ?w r c)"
    by auto
  let ?k = "cell ?w (y + 1) (n + 1)"
  let ?v = "row_sum img y (Suc n) + I ! cell ?w y (n + 1)"
  let ?I' = "I[?k := ?v]"
  have n1: "n + 1 \<le> ?w" using Suc.prems by simp
  have "fold (integral_step img y) [0..<Suc n] (0, I0) =
      integral_step img y n (fold (integral_step img y) [0..<n] (0, I0))" by simp
  also have "\<dots> = integral_step img y n (row_sum img y n, I)" by (simp only: f)
  also have "\<dots> = (row_sum img y (Suc n), ?I')"
    by (simp only: integral_step_cell row_sum_Suc)
  finally have step: "fold (integral_step img y) [0..<Suc n] (0, I0) = (row_sum img y (Suc n), ?I')" .
  have k: "?k < length I"
    unfolding l len using cell_less [of "y + 1" h "n + 1" ?w] \<open>y < h\<close> n1 by simp
  have old: "I ! cell ?w y (n + 1) = I0 ! cell ?w y (n + 1)"
    using c [rule_format, of "n + 1" y] n1 by simp
  have cells: "\<forall>r c. c \<le> ?w \<longrightarrow>
           ?I' ! cell ?w r c =
             (if r = y + 1 \<and> 1 \<le> c \<and> c \<le> Suc n
              then row_sum img y c + I0 ! cell ?w y c
              else I0 ! cell ?w r c)"
  proof (intro allI impI)
    fix r c assume cw: "c \<le> ?w"
    show "?I' ! cell ?w r c =
             (if r = y + 1 \<and> 1 \<le> c \<and> c \<le> Suc n
              then row_sum img y c + I0 ! cell ?w y c
              else I0 ! cell ?w r c)"
    proof (cases "r = y + 1 \<and> c = n + 1")
      case True
      then have "?I' ! cell ?w r c = ?v" using k by simp
      then show ?thesis using True old by simp
    next
      case False
      then have "?k \<noteq> cell ?w r c"
        using cell_inj [of "n + 1" ?w c "y + 1" r] n1 cw by auto
      then have "?I' ! cell ?w r c = I ! cell ?w r c" by simp
      then show ?thesis using c [rule_format, OF cw, of r] False by auto
    qed
  qed
  show ?case using step l cells by (intro exI [of _ ?I']) simp
qed

lemma integral_row_cells:
  assumes "y < h" and len: "length I0 = (width img + 1) * (h + 1)"
  shows "length (integral_row img y I0) = length I0 \<and>
        (\<forall>r c. c \<le> width img \<longrightarrow>
           integral_row img y I0 ! cell (width img) r c =
             (if r = y + 1 \<and> 1 \<le> c
              then row_sum img y c + I0 ! cell (width img) y c
              else I0 ! cell (width img) r c))"
proof -
  have "integral_row img y I0 = snd (fold (integral_step img y) [0..<width img] (0, I0))"
    by (simp add: integral_row_def)
  moreover obtain I where "fold (integral_step img y) [0..<width img] (0, I0) =
      (row_sum img y (width img), I)" "length I = length I0"
     "\<forall>r c. c \<le> width img \<longrightarrow>
           I ! cell (width img) r c =
             (if r = y + 1 \<and> 1 \<le> c \<and> c \<le> width img
              then row_sum img y c + I0 ! cell (width img) y c
              else I0 ! cell (width img) r c)"
    using integral_row_fold [OF assms, of "width img"] by auto
  ultimately show ?thesis by auto
qed

lemma integral_rows:
  "m \<le> height img \<Longrightarrow>
   length (fold (integral_row img) [0..<m]
      (replicate ((width img + 1) * (height img + 1)) 0)) = (width img + 1) * (height img + 1) \<and>
   (\<forall>r c. c \<le> width img \<and> r \<le> height img \<longrightarrow>
      fold (integral_row img) [0..<m]
        (replicate ((width img + 1) * (height img + 1)) 0) ! cell (width img) r c =
      (if r \<le> m then area_sum img r c else 0))"
proof (induction m)
  case 0
  show ?case
  proof (intro conjI allI impI)
    fix r c assume "c \<le> width img \<and> r \<le> height img"
    then have "cell (width img) r c < (width img + 1) * (height img + 1)"
      using cell_less [of r "height img" c "width img"] by blast
    then show "fold (integral_row img) [0..<0]
        (replicate ((width img + 1) * (height img + 1)) 0) ! cell (width img) r c =
        (if r \<le> 0 then area_sum img r c else 0)"
      by (simp add: area_sum_0 del: replicate_Suc mult_Suc mult_Suc_right)
  qed simp
next
  case (Suc m)
  let ?w = "width img" and ?h = "height img"
  let ?I = "fold (integral_row img) [0..<m] (replicate ((?w + 1) * (?h + 1)) 0)"
  have m: "m < ?h" using Suc.prems by simp
  have l: "length ?I = (?w + 1) * (?h + 1)" using Suc by simp
  have c: "\<forall>r c. c \<le> ?w \<and> r \<le> ?h \<longrightarrow>
      ?I ! cell ?w r c = (if r \<le> m then area_sum img r c else 0)"
    using Suc by simp
  note row = integral_row_cells [OF m l]
  have f: "fold (integral_row img) [0..<Suc m] (replicate ((?w + 1) * (?h + 1)) 0) =
      integral_row img m ?I" by simp
  show ?case unfolding f
  proof (intro conjI allI impI)
    show "length (integral_row img m ?I) = (?w + 1) * (?h + 1)" using row l by simp
  next
    fix r c assume rc: "c \<le> ?w \<and> r \<le> ?h"
    have mc: "?I ! cell ?w m c = area_sum img m c"
      using c [rule_format, of c m] rc m by simp
    show "integral_row img m ?I ! cell ?w r c =
        (if r \<le> Suc m then area_sum img r c else 0)"
    proof (cases "r = m + 1 \<and> 1 \<le> c")
      case True
      then have "integral_row img m ?I ! cell ?w r c = row_sum img m c + ?I ! cell ?w m c"
        using row [THEN conjunct2, rule_format, of c r] rc by simp
      then show ?thesis using True mc by (simp add: area_sum_Suc)
    next
      case False
      then have "integral_row img m ?I ! cell ?w r c = ?I ! cell ?w r c"
        using row [THEN conjunct2, rule_format, of c r] rc by auto
      also have "\<dots> = (if r \<le> m then area_sum img r c else 0)"
        using c [rule_format, of c r] rc by simp
      also have "\<dots> = (if r \<le> Suc m then area_sum img r c else 0)"
      proof (cases "r = Suc m")
        case True
        then have "c = 0" using False by simp
        then show ?thesis using True by (simp add: area_sum_0)
      next
        case False
        then show ?thesis by (simp add: le_Suc_eq)
      qed
      finally show ?thesis .
    qed
  qed
qed

lemma computeIntegralImage_cell:
  "r \<le> height img \<Longrightarrow> c \<le> width img \<Longrightarrow>
   computeIntegralImage img ! cell (width img) r c = area_sum img r c"
  using integral_rows [of "height img" img] by (simp add: computeIntegralImage_def)

lemma getIntegralSum_cell:
  "getIntegralSum I x1 y1 x2 y2 w =
     I ! cell w (y2 + 1) (x2 + 1) - I ! cell w y1 (x2 + 1)
       - I ! cell w (y2 + 1) x1 + I ! cell w y1 x1"
  unfolding getIntegralSum_def cell_def Let_def by (rule refl)

lemma row_sum_window:
  "x1 \<le> X \<Longrightarrow> (\<Sum>xx = x1..<X. px img y xx) = row_sum img y X - row_sum img y x1"
proof -
  assume "x1 \<le> X"
  then have "{..<X} = {..<x1} \<union> {x1..<X}" "{..<x1} \<inter> {x1..<X} = {}" by auto
  then have "row_sum img y X = row_sum img y x1 + (\<Sum>xx = x1..<X. px img y xx)"
    unfolding row_sum_def by (simp add: sum.union_disjoint)
  then show ?thesis by simp
qed

lemma area_sum_window:
  "y1 \<le> Y \<Longrightarrow> (\<Sum>yy = y1..<Y. row_sum img yy c) = area_sum img Y c - area_sum img y1 c"
proof -
  assume "y1 \<le> Y"
  then have "{..<Y} = {..<y1} \<union> {y1..<Y}" "{..<y1} \<inter> {y1..<Y} = {}" by auto
  then have "area_sum img Y c = area_sum img y1 c + (\<Sum>yy = y1..<Y. row_sum img yy c)"
    unfolding area_sum_def by (simp add: sum.union_disjoint)
  then show ?thesis by simp
qed

lemma window_sum:
  assumes "x1 \<le> X" "y1 \<le> Y"
  shows "(\<Sum>yy = y1..<Y. \<Sum>xx = x1..<X. px img yy xx) =
     area_sum img Y X - area_sum img y1 X - area_sum img Y x1 + area_sum img y1 x1"
proof -
  have "(\<Sum>yy = y1..<Y. \<Sum>xx = x1..<X. px img yy xx) =
      (\<Sum>yy = y1..<Y. row_sum img yy X - row_sum img yy x1)"
    using assms(1) by (simp add: row_sum_window)
  also have "\<dots> = (\<Sum>yy = y1..<Y. row_sum img yy X) - (\<Sum>yy = y1..<Y. row_sum img yy x1)"
    by (rule sum_subtractf)
  also have "\<dots> = (area_sum img Y X - area_sum img y1 X) - (area_sum img Y x1 - area_sum img y1 x1)"
    using assms(2) by (simp add: area_sum_window)
  finally show ?thesis by simp
qed

lemma integral_window:
  assumes "x1 \<le> x2" "x2 < width img" "y1 \<le> y2" "y2 < height img"
  shows "getIntegralSum (computeIntegralImage img) x1 y1 x2 y2 (width img) =
     (\<Sum>yy = y1..<Suc y2. \<Sum>xx = x1..<Suc x2. px img yy xx)"
proof -
  have "getIntegralSum (computeIntegralImage img) x1 y1 x2 y2 (width img) =
      area_sum img (y2 + 1) (x2 + 1) - area_sum img y1 (x2 + 1)
        - area_sum img (y2 + 1) x1 + area_sum img y1 x1"
    using assms by (simp add: getIntegralSum_cell computeIntegralImage_cell)
  also have "\<dots> = (\<Sum>yy = y1..<Suc y2. \<Sum>xx = x1..<Suc x2. px img yy xx)"
    using assms window_sum [of x1 "Suc x2" y1 "Suc y2" img] by simp
  finally show ?thesis .
qed

lemma fold_count_row:
  "fold (\<lambda>xx (total, count). (total + f xx, count + 1)) xs (t0, c0) =
     (t0 + sum_list (map f xs), c0 + length xs)"
  for f :: "nat \<Rightarrow> real" and c0 :: nat
  by (induction xs arbitrary: t0 c0) (simp_all add: add.assoc)

lemma fold_count_row_Suc:
  "fold (\<lambda>xx (total, count). (total + f xx, Suc count)) xs (t0, c0) =
     (t0 + sum_list (map f xs), c0 + length xs)"
  for f :: "nat \<Rightarrow> real" and c0 :: nat
  using fold_count_row [of f xs t0 c0] by simp

lemma fold_count_rows:
  "fold (\<lambda>yy acc. fold (\<lambda>xx (total, count). (total + f yy xx, count + 1)) xs acc) ys (t0, c0) =
     (t0 + sum_list (map (\<lambda>yy. sum_list (map (f yy) xs)) ys), c0 + length ys * length xs)"
  for f :: "nat \<Rightarrow> nat \<Rightarrow> real" and c0 :: nat
  by (induction ys arbitrary: t0 c0) (simp_all add: fold_count_row_Suc add.assoc)

lemma fold_window:
  "fold (\<lambda>yy acc. fold (\<lambda>xx (total, count). (total + f yy xx, count + 1)) [a..<b] acc)
     [c..<d] (0, 0) =
   ((\<Sum>yy = c..<d. \<Sum>xx = a..<b. f yy xx), (d - c) * (b - a))"
  for f :: "nat \<Rightarrow> nat \<Rightarrow> real"
  unfolding fold_count_rows by (simp add: interv_sum_list_conv_sum_set_nat)

lemma naive_window_sum_eq:
  "naive_window_sum img half y x =
     ((\<Sum>yy = y - half..<Suc (min (height img - 1) (y + half)).
        \<Sum>xx = x - half..<Suc (min (width img - 1) (x + half)). px img yy xx),
      (Suc (min (height img - 1) (y + half)) - (y - half)) *
      (Suc (min (width img - 1) (x + half)) - (x - half)))"
  unfolding naive_window_sum_def by (rule fold_window)

lemma adaptive_pixel_naive:
  assumes "y < height img" "x < width img"
  shows "adaptive_pixel img (computeIntegralImage img) half c y x out =
     naive_pixel img half c y x out"
proof -
  let ?x1 = "x - half" and ?y1 = "y - half"
  let ?x2 = "min (width img - 1) (x + half)" and ?y2 = "min (height img - 1) (y + half)"
  have b: "?x1 \<le> ?x2" "?x2 < width img" "?y1 \<le> ?y2" "?y2 < height img"
    using assms by auto
  have total: "getIntegralSum (computeIntegralImage img) ?x1 ?y1 ?x2 ?y2 (width img) =
      fst (naive_window_sum img half y x)"
    using integral_window [OF b] by (simp add: naive_window_sum_eq)
  have count: "(?x2 - ?x1 + 1) * (?y2 - ?y1 + 1) = snd (naive_window_sum img half y x)"
    using b by (simp add: naive_window_sum_eq Suc_diff_le mult.commute)
  show ?thesis
    unfolding adaptive_pixel_def naive_pixel_def Let_def total count
    by (simp add: case_prod_beta)
qed

lemma adaptiveThreshold_eq_naive:
  "adaptiveThreshold img blockSize c = adaptiveThreshold_naive img blockSize c"
proof -
  have "fold (\<lambda>y output.
          fold (\<lambda>x output. adaptive_pixel img (computeIntegralImage img) (blockSize div 2) c y x output)
            [0..<width img] output) [0..<height img] (data img) =
        fold (\<lambda>y output.
          fold (\<lambda>x output. naive_pixel img (blockSize div 2) c y x output)
            [0..<width img] output) [0..<height img] (data img)"
  proof (rule fold_cong [OF refl refl])
    fix y assume y: "y \<in> set [0..<height img]"
    show "(\<lambda>output. fold (\<lambda>x output.
              adaptive_pixel img (computeIntegralImage img) (blockSize div 2) c y x output)
            [0..<width img] output) =
          (\<lambda>output. fold (\<lambda>x output. naive_pixel img (blockSize div 2) c y x output)
            [0..<width img] output)"
    proof (rule ext, rule fold_cong [OF refl refl])
      fix x assume "x \<in> set [0..<width img]"
      then show "adaptive_pixel img (computeIntegralImage img) (blockSize div 2) c y x =
          naive_pixel img (blockSize div 2) c y x"
        using y by (intro ext adaptive_pixel_naive) simp_all
    qed
  qed
  then show ?thesis by (simp add: adaptiveThreshold_def adaptiveThreshold_naive_def Let_def)
qed

subsection \<open>Skew detection\<close>








lemma skew_step_cases: "fst (skew_step img angle s) = fst s \<or> fst (skew_step img angle s) = angle"
  by (cases s) (simp add: skew_step_def split: option.splits)

lemma fold_skew_step_range:
  "fst (fold (skew_step img) angles s) \<in> insert (fst s) (set angles)"
proof (induction angles arbitrary: s)
  case Nil
  show ?case by simp
next
  case (Cons a angles)
  have "fst (fold (skew_step img) (a # angles) s) \<in>
      insert (fst (skew_step img a s)) (set angles)"
    using Cons [of "skew_step img a s"] by simp
  then show ?case using skew_step_cases [of img a s] by auto
qed

lemma detectSkewAngle_range: "detectSkewAngle img \<in> insert 0 (set candidate_angles)"
  unfolding detectSkewAngle_def using fold_skew_step_range [of img candidate_angles "(0, 0)"]
  by simp

lemma small_candidate_zero:
  assumes "a \<in> insert 0 (set candidate_angles)" "\<bar>a\<bar> < 1 / 2"
  shows "a = 0"
proof (cases "a = 0")
  case False
  then obtain k where k: "k < 61" "a = - 15 + real k / 2"
    using assms(1) by (auto simp: candidate_angles_def)
  have "\<bar>- 15 + real k / 2\<bar> < 1 / 2" using assms(2) k(2) by (simp only:)
  then have "29 < real k" "real k < 31" by linarith+
  then have "29 < k" "k < 31" by simp_all
  then have "k = 30" by linarith
  then show ?thesis using k by simp
qed simp


subsection \<open>The claims on the pixel transforms\<close>

text \<open>
  Claim C4.  \<open>toGrayscale\<close> is idempotent: applying it to its own output changes
  nothing.  It keeps the dimensions and the number of samples.  Over R, G and B of
  every pixel it writes one sample, the luminance as binary64 arithmetic computes
  it (three products with the rounded weights, added from left to right), stored
  with clamping and rounding; that sample is within \<open>1/2 + 2^(-34)\<close> of the exact
  \<open>0.299 R + 0.587 G + 0.114 B\<close>.  The alpha sample stays as it was.
\<close>

theorem toGrayscale_idempotent:
  "toGrayscale (toGrayscale x) = toGrayscale x \<and>
   width (toGrayscale x) = width x \<and> height (toGrayscale x) = height x \<and>
   length (data (toGrayscale x)) = length (data x) \<and>
   (4 * i + 3 < length (data x) \<longrightarrow>
      data (toGrayscale x) ! (4 * i) =
        toUint8Clamp
          (round_double
             (round_double (round_double (sample (data x ! (4 * i)) * round_double 0.299) +
                            round_double (sample (data x ! (4 * i + 1)) * round_double 0.587)) +
              round_double (sample (data x ! (4 * i + 2)) * round_double 0.114))) \<and>
      \<bar>sample (data (toGrayscale x) ! (4 * i)) -
         (sample (data x ! (4 * i)) * 0.299 + sample (data x ! (4 * i + 1)) * 0.587 +
          sample (data x ! (4 * i + 2)) * 0.114)\<bar> \<le> 1 / 2 + 1 / 2 ^ 34 \<and>
      data (toGrayscale x) ! (4 * i + 1) = data (toGrayscale x) ! (4 * i) \<and>
      data (toGrayscale x) ! (4 * i + 2) = data (toGrayscale x) ! (4 * i) \<and>
      data (toGrayscale x) ! (4 * i + 3) = data x ! (4 * i + 3))"
proof -
  let ?red = "data (toGrayscale x) ! (4 * i) =
        toUint8Clamp
          (round_double
             (round_double (round_double (sample (data x ! (4 * i)) * round_double 0.299) +
                            round_double (sample (data x ! (4 * i + 1)) * round_double 0.587)) +
              round_double (sample (data x ! (4 * i + 2)) * round_double 0.114)))"
  let ?near = "\<bar>sample (data (toGrayscale x) ! (4 * i)) -
         (sample (data x ! (4 * i)) * 0.299 + sample (data x ! (4 * i + 1)) * 0.587 +
          sample (data x ! (4 * i + 2)) * 0.114)\<bar> \<le> 1 / 2 + 1 / 2 ^ 34"
  let ?green = "data (toGrayscale x) ! (4 * i + 1) = data (toGrayscale x) ! (4 * i)"
  let ?blue = "data (toGrayscale x) ! (4 * i + 2) = data (toGrayscale x) ! (4 * i)"
  let ?alpha = "data (toGrayscale x) ! (4 * i + 3) = data x ! (4 * i + 3)"
  have idem: "toGrayscale (toGrayscale x) = toGrayscale x"
    by (simp add: toGrayscale_def toGrayscale_data_idem)
  have w: "width (toGrayscale x) = width x" by (simp add: toGrayscale_def)
  have h: "height (toGrayscale x) = height x" by (simp add: toGrayscale_def)
  have l: "length (data (toGrayscale x)) = length (data x)"
    by (simp add: toGrayscale_def length_toGrayscale_data)
  have pixel: "?red \<and> ?near \<and> ?green \<and> ?blue \<and> ?alpha"
    if lt: "4 * i + 3 < length (data x)"
  proof -
    have d: "data (toGrayscale x) = toGrayscale_data (data x)" by (simp add: toGrayscale_def)
    note rgb = toGrayscale_data_rgb [OF lt]
    have lum: "data (toGrayscale x) ! (4 * i) =
        toUint8Clamp (luminance (data x ! (4 * i)) (data x ! (4 * i + 1)) (data x ! (4 * i + 2)))"
      unfolding d by (rule rgb [THEN conjunct1])
    have red: ?red using lum unfolding luminance_def .
    have near: ?near unfolding lum by (rule stored_luminance_error)
    have green: ?green unfolding d by (rule rgb [THEN conjunct2, THEN conjunct1])
    have blue: ?blue unfolding d by (rule rgb [THEN conjunct2, THEN conjunct2])
    have alpha: ?alpha unfolding d by (rule toGrayscale_data_alpha [OF lt])
    show ?thesis by (intro conjI) (rule red near green blue alpha)+
  qed
  then have px: "4 * i + 3 < length (data x) \<longrightarrow> ?red \<and> ?near \<and> ?green \<and> ?blue \<and> ?alpha"
    by (rule impI)
  show ?thesis by (rule conjI [OF idem conjI [OF w conjI [OF h conjI [OF l px]]]])
qed

theorem toGrayscale_idempotent_witness:
  "toGrayscale (toGrayscale \<lparr>width = 2, height = 1, data = [10, 200, 30, 255, 0, 80, 110, 7]\<rparr>) =
     toGrayscale \<lparr>width = 2, height = 1, data = [10, 200, 30, 255, 0, 80, 110, 7]\<rparr> \<and>
   toGrayscale \<lparr>width = 2, height = 1, data = [10, 200, 30, 255, 0, 80, 110, 7]\<rparr> =
     \<lparr>width = 2, height = 1, data = [124, 124, 124, 255, 59, 59, 59, 7]\<rparr> \<and>
   \<bar>sample (data (toGrayscale
        \<lparr>width = 2, height = 1, data = [10, 200, 30, 255, 0, 80, 110, 7]\<rparr>) ! (4 * 1)) -
      (sample 0 * 0.299 + sample 80 * 0.587 + sample 110 * 0.114)\<bar> \<le> 1 / 2 + 1 / 2 ^ 34 \<and>
   data (toGrayscale \<lparr>width = 2, height = 1, data = [10, 200, 30, 255, 0, 80, 110, 7]\<rparr>) !
     (4 * 1 + 3) = 7"
proof -
  let ?x = "\<lparr>width = 2, height = 1, data = [10, 200, 30, 255, 0, 80, 110, 7 :: byte]\<rparr>"
  note at1 = toGrayscale_idempotent [of ?x 1]
  have h: "4 * 1 + 3 < length (data ?x)" by simp
  have a: "toGrayscale (toGrayscale ?x) = toGrayscale ?x" by (rule at1 [THEN conjunct1])
  have v: "toGrayscale ?x = \<lparr>width = 2, height = 1, data = [124, 124, 124, 255, 59, 59, 59, 7]\<rparr>"
    by code_simp
  note px = mp [OF at1 [THEN conjunct2, THEN conjunct2, THEN conjunct2, THEN conjunct2] h]
  have "\<bar>sample (data (toGrayscale ?x) ! (4 * 1)) -
      (sample (data ?x ! (4 * 1)) * 0.299 + sample (data ?x ! (4 * 1 + 1)) * 0.587 +
       sample (data ?x ! (4 * 1 + 2)) * 0.114)\<bar> \<le> 1 / 2 + 1 / 2 ^ 34"
    by (rule px [THEN conjunct2, THEN conjunct1])
  then have n: "\<bar>sample (data (toGrayscale ?x) ! (4 * 1)) -
      (sample 0 * 0.299 + sample 80 * 0.587 + sample 110 * 0.114)\<bar> \<le> 1 / 2 + 1 / 2 ^ 34"
    by simp
  have "data (toGrayscale ?x) ! (4 * 1 + 3) = data ?x ! (4 * 1 + 3)"
    by (rule px [THEN conjunct2, THEN conjunct2, THEN conjunct2, THEN conjunct2])
  then have al: "data (toGrayscale ?x) ! (4 * 1 + 3) = 7" by simp
  show ?thesis by (intro conjI) (rule a v n al)+
qed

text \<open>
  Claim C2.  \<open>calculateOtsuThreshold\<close> never divides by zero: on every buffer it
  returns a threshold below 256, which is 0 or a candidate at which both weights are
  non-zero.  On a buffer whose pixels all have one luminance value it returns 0.
  In the scan, a candidate \<open>t\<close> with \<open>wB = 0\<close> is skipped with nothing but \<open>wB\<close>
  updated, and the scan stops with the threshold found so far once \<open>wF = 0\<close>.
\<close>

theorem otsu_no_division_by_zero:
  "(\<exists>r. calculateOtsuThreshold imageData = Some r \<and> r < 256 \<and>
        (r = 0 \<or> valid_candidate (build_histogram (data imageData) (replicate 256 0))
                   (real (length (data imageData)) / 4) r)) \<and>
   (well_formed imageData \<and>
    (\<forall>i. 4 * i < length (data imageData) \<longrightarrow> data imageData ! (4 * i) = v) \<longrightarrow>
      calculateOtsuThreshold imageData = Some 0) \<and>
   (t < 256 \<and> wB + real (h ! t) = 0 \<longrightarrow>
      otsu_scan h tot s t sumB wB mv thr = otsu_scan h tot s (t + 1) sumB 0 mv thr) \<and>
   (t < 256 \<and> wB + real (h ! t) \<noteq> 0 \<and> tot - (wB + real (h ! t)) = 0 \<longrightarrow>
      otsu_scan h tot s t sumB wB mv thr = Some thr)"
  using otsu_total [of imageData] otsu_uniform [of imageData v]
    otsu_scan_skip [of t wB h tot s sumB mv thr] otsu_scan_break [of t wB h tot s sumB mv thr]
  by blast

theorem otsu_no_division_by_zero_witness:
  "calculateOtsuThreshold \<lparr>width = 2, height = 1, data = [7, 7, 7, 255, 7, 7, 7, 255]\<rparr> = Some 0 \<and>
   otsu_scan [0, 2] 2 0 0 0 0 0 0 = otsu_scan [0, 2] 2 0 1 0 0 0 0 \<and>
   otsu_scan [0, 2] 2 0 1 0 0 0 0 = Some 0"
proof -
  let ?x = "\<lparr>width = 2, height = 1, data = [7, 7, 7, 255, 7, 7, 7, 255 :: byte]\<rparr>"
  have wf: "well_formed ?x" by (simp add: well_formed_def)
  have uni: "\<forall>i. 4 * i < length (data ?x) \<longrightarrow> data ?x ! (4 * i) = 7"
    by (simp add: nth_Cons') arith
  have skip: "(0::nat) < 256 \<and> (0::real) + real ([0, 2::nat] ! 0) = 0" by simp
  have brk: "(1::nat) < 256 \<and> (0::real) + real ([0, 2::nat] ! 1) \<noteq> 0 \<and>
      (2::real) - (0 + real ([0, 2::nat] ! 1)) = 0" by simp
  note at0 = otsu_no_division_by_zero [of ?x 7 0 0 "[0, 2]" 2 0 0 0 0]
  note at1 = otsu_no_division_by_zero [of ?x 7 1 0 "[0, 2]" 2 0 0 0 0]
  have a: "calculateOtsuThreshold ?x = Some 0"
    by (rule mp [OF at0 [THEN conjunct2, THEN conjunct1]]) (rule conjI [OF wf uni])
  have "otsu_scan [0, 2] 2 0 0 0 0 0 0 = otsu_scan [0, 2] 2 0 (0 + 1) 0 0 0 0"
    by (rule mp [OF at0 [THEN conjunct2, THEN conjunct2, THEN conjunct1] skip])
  then have b: "otsu_scan [0, 2] 2 0 0 0 0 0 0 = otsu_scan [0, 2] 2 0 1 0 0 0 0"
    by simp
  have c: "otsu_scan [0, 2] 2 0 1 0 0 0 0 = Some 0"
    by (rule mp [OF at1 [THEN conjunct2, THEN conjunct2, THEN conjunct2] brk])
  show ?thesis by (intro conjI) (rule a b c)+
qed

text \<open>
  Claim C6.  \<open>threshold\<close> returns, for every buffer and with or without a given
  value, a buffer of the same shape.  The value \<open>t\<close> the pixels are binarized against
  is the given one if there is one, else the Otsu value of the incoming buffer.  The
  R sample of every pixel becomes 255 if it was greater than \<open>t\<close> and 0 if not, so it
  is 0 or 255; G and B get the same sample and alpha stays as it was.
\<close>

theorem threshold_output_binary:
  "\<exists>out t. threshold imageData thresholdValue = Some out \<and>
      (case thresholdValue of
         Some v \<Rightarrow> t = v
       | None \<Rightarrow> \<exists>r. calculateOtsuThreshold imageData = Some r \<and> r < 256 \<and> t = real r) \<and>
      width out = width imageData \<and> height out = height imageData \<and>
      length (data out) = length (data imageData) \<and>
      (\<forall>i. 4 * i < length (data out) \<longrightarrow>
         data out ! (4 * i) = (if sample (data imageData ! (4 * i)) > t then 255 else 0) \<and>
         (data out ! (4 * i) = 0 \<or> data out ! (4 * i) = 255)) \<and>
      (\<forall>i. 4 * i + 3 < length (data out) \<longrightarrow>
         data out ! (4 * i + 1) = data out ! (4 * i) \<and>
         data out ! (4 * i + 2) = data out ! (4 * i) \<and>
         data out ! (4 * i + 3) = data imageData ! (4 * i + 3))"
proof -
  obtain t where out: "threshold imageData thresholdValue =
      Some (imageData\<lparr>data := threshold_data t (data imageData)\<rparr>)"
    and t: "case thresholdValue of
         Some v \<Rightarrow> t = v
       | None \<Rightarrow> \<exists>r. calculateOtsuThreshold imageData = Some r \<and> r < 256 \<and> t = real r"
    using threshold_value [of imageData thresholdValue] by blast
  let ?out = "imageData\<lparr>data := threshold_data t (data imageData)\<rparr>"
  have red: "\<forall>i. 4 * i < length (data ?out) \<longrightarrow>
         data ?out ! (4 * i) = (if sample (data imageData ! (4 * i)) > t then 255 else 0) \<and>
         (data ?out ! (4 * i) = 0 \<or> data ?out ! (4 * i) = 255)"
    by (simp add: length_threshold_data threshold_data_red)
  have rest: "\<forall>i. 4 * i + 3 < length (data ?out) \<longrightarrow>
         data ?out ! (4 * i + 1) = data ?out ! (4 * i) \<and>
         data ?out ! (4 * i + 2) = data ?out ! (4 * i) \<and>
         data ?out ! (4 * i + 3) = data imageData ! (4 * i + 3)"
  proof (intro allI impI)
    fix i assume "4 * i + 3 < length (data ?out)"
    then have "4 * i + 3 < length (data imageData)" by (simp add: length_threshold_data)
    then show "data ?out ! (4 * i + 1) = data ?out ! (4 * i) \<and>
         data ?out ! (4 * i + 2) = data ?out ! (4 * i) \<and>
         data ?out ! (4 * i + 3) = data imageData ! (4 * i + 3)"
      using threshold_data_pixel [of i "data imageData" t] by simp
  qed
  have shape: "width ?out = width imageData \<and> height ?out = height imageData \<and>
      length (data ?out) = length (data imageData)"
    by (simp add: length_threshold_data)
  show ?thesis
    by (intro exI [of _ ?out] exI [of _ t] conjI)
      (rule out t shape [THEN conjunct1] shape [THEN conjunct2, THEN conjunct1]
        shape [THEN conjunct2, THEN conjunct2] red rest)+
qed

theorem threshold_output_binary_witness:
  "threshold \<lparr>width = 2, height = 1, data = [50, 50, 50, 255, 200, 200, 200, 255]\<rparr> (Some 100) =
     Some \<lparr>width = 2, height = 1, data = [0, 0, 0, 255, 255, 255, 255, 255]\<rparr> \<and>
   (\<exists>out. threshold \<lparr>width = 2, height = 1, data = [50, 50, 50, 255, 200, 200, 200, 255]\<rparr>
       (Some 100) = Some out \<and>
      data out ! (4 * 0) = 0 \<and> data out ! (4 * 1) = 255 \<and> data out ! (4 * 1 + 3) = 255) \<and>
   (\<exists>out. threshold \<lparr>width = 4, height = 1,
       data = [0, 0, 0, 255, 1, 1, 1, 255, 1, 1, 1, 255, 2, 2, 2, 9]\<rparr> None = Some out \<and>
      data out ! (4 * 1) = 0 \<and> data out ! (4 * 3) = 255 \<and> data out ! (4 * 3 + 1) = 255 \<and>
      data out ! (4 * 3 + 3) = 9)"
proof -
  let ?x = "\<lparr>width = 2, height = 1, data = [50, 50, 50, 255, 200, 200, 200, 255 :: byte]\<rparr>"
  let ?y = "\<lparr>width = 4, height = 1,
      data = [0, 0, 0, 255, 1, 1, 1, 255, 1, 1, 1, 255, 2, 2, 2, 9 :: byte]\<rparr>"
  have a: "threshold ?x (Some 100) =
      Some \<lparr>width = 2, height = 1, data = [0, 0, 0, 255, 255, 255, 255, 255]\<rparr>"
    by code_simp
  have b: "\<exists>out. threshold ?x (Some 100) = Some out \<and>
      data out ! (4 * 0) = 0 \<and> data out ! (4 * 1) = 255 \<and> data out ! (4 * 1 + 3) = 255"
  proof -
    from threshold_output_binary [of ?x "Some 100"] obtain out t where
      o: "threshold ?x (Some 100) = Some out"
      and t: "case Some 100 of
         Some v \<Rightarrow> t = v
       | None \<Rightarrow> \<exists>r. calculateOtsuThreshold ?x = Some r \<and> r < 256 \<and> t = real r"
      and len: "length (data out) = length (data ?x)"
      and red: "\<forall>i. 4 * i < length (data out) \<longrightarrow>
         data out ! (4 * i) = (if sample (data ?x ! (4 * i)) > t then 255 else 0) \<and>
         (data out ! (4 * i) = 0 \<or> data out ! (4 * i) = 255)"
      and rest: "\<forall>i. 4 * i + 3 < length (data out) \<longrightarrow>
         data out ! (4 * i + 1) = data out ! (4 * i) \<and>
         data out ! (4 * i + 2) = data out ! (4 * i) \<and>
         data out ! (4 * i + 3) = data ?x ! (4 * i + 3)"
      by (elim exE conjE)
    have t100: "t = 100" using t by simp
    have h0: "4 * 0 < length (data out)" and h1: "4 * 1 < length (data out)"
      and h3: "4 * 1 + 3 < length (data out)" unfolding len by simp_all
    have s50: "\<not> sample (50 :: byte) > 100" and s200: "sample (200 :: byte) > 100"
      by (simp_all add: sample_def)
    have "data out ! (4 * 0) = (if sample (data ?x ! (4 * 0)) > t then 255 else 0)"
      by (rule mp [OF spec [OF red] h0, THEN conjunct1])
    then have r0: "data out ! (4 * 0) = 0" using s50 by (simp add: t100)
    have "data out ! (4 * 1) = (if sample (data ?x ! (4 * 1)) > t then 255 else 0)"
      by (rule mp [OF spec [OF red] h1, THEN conjunct1])
    then have r1: "data out ! (4 * 1) = 255" using s200 by (simp add: t100)
    have "data out ! (4 * 1 + 3) = data ?x ! (4 * 1 + 3)"
      by (rule mp [OF spec [OF rest] h3, THEN conjunct2, THEN conjunct2])
    then have r3: "data out ! (4 * 1 + 3) = 255" by simp
    show ?thesis by (intro exI [of _ out] conjI) (rule o r0 r1 r3)+
  qed
  have c: "calculateOtsuThreshold ?y = Some 1"
    by (rule otsu_two_maxima)
  have d: "\<exists>out. threshold ?y None = Some out \<and>
      data out ! (4 * 1) = 0 \<and> data out ! (4 * 3) = 255 \<and> data out ! (4 * 3 + 1) = 255 \<and>
      data out ! (4 * 3 + 3) = 9"
  proof -
    from threshold_output_binary [of ?y None] obtain out t where
      o: "threshold ?y None = Some out"
      and t: "case None of
         Some v \<Rightarrow> t = v
       | None \<Rightarrow> \<exists>r. calculateOtsuThreshold ?y = Some r \<and> r < 256 \<and> t = real r"
      and len: "length (data out) = length (data ?y)"
      and red: "\<forall>i. 4 * i < length (data out) \<longrightarrow>
         data out ! (4 * i) = (if sample (data ?y ! (4 * i)) > t then 255 else 0) \<and>
         (data out ! (4 * i) = 0 \<or> data out ! (4 * i) = 255)"
      and rest: "\<forall>i. 4 * i + 3 < length (data out) \<longrightarrow>
         data out ! (4 * i + 1) = data out ! (4 * i) \<and>
         data out ! (4 * i + 2) = data out ! (4 * i) \<and>
         data out ! (4 * i + 3) = data ?y ! (4 * i + 3)"
      by (elim exE conjE)
    have t1: "t = 1" using t c by simp
    have h1: "4 * 1 < length (data out)" and h3: "4 * 3 < length (data out)"
      and h33: "4 * 3 + 3 < length (data out)" unfolding len by simp_all
    have s1: "\<not> sample (1 :: byte) > 1" and s2: "sample (2 :: byte) > 1"
      by (simp_all add: sample_def)
    have "data out ! (4 * 1) = (if sample (data ?y ! (4 * 1)) > t then 255 else 0)"
      by (rule mp [OF spec [OF red] h1, THEN conjunct1])
    then have r1: "data out ! (4 * 1) = 0" using s1 by (simp add: t1)
    have "data out ! (4 * 3) = (if sample (data ?y ! (4 * 3)) > t then 255 else 0)"
      by (rule mp [OF spec [OF red] h3, THEN conjunct1])
    then have r3: "data out ! (4 * 3) = 255" using s2 by (simp add: t1)
    note px = mp [OF spec [OF rest] h33]
    have r31: "data out ! (4 * 3 + 1) = 255" using px [THEN conjunct1] r3 by simp
    have "data out ! (4 * 3 + 3) = data ?y ! (4 * 3 + 3)"
      by (rule px [THEN conjunct2, THEN conjunct2])
    then have r33: "data out ! (4 * 3 + 3) = 9" by simp
    show ?thesis by (intro exI [of _ out] conjI) (rule o r1 r3 r31 r33)+
  qed
  show ?thesis by (intro conjI) (rule a b d)+
qed

text \<open>
  Claim C3.  On every buffer with four samples per pixel, for every block size and
  every \<open>c\<close>, \<open>adaptiveThreshold\<close>, which takes the window sums from the integral
  image, returns the same buffer, sample for sample, as the naive computation that
  visits every pixel of the clamped window and binarizes by
  \<open>out = (pixel > mean - c) ? 255 : 0\<close>.
\<close>

theorem adaptiveThreshold_integral_eq_naive:
  "well_formed imageData \<Longrightarrow>
   adaptiveThreshold imageData blockSize c = adaptiveThreshold_naive imageData blockSize c"
  by (rule adaptiveThreshold_eq_naive)

theorem adaptiveThreshold_integral_eq_naive_witness:
  "well_formed \<lparr>width = 2, height = 2,
      data = [10, 10, 10, 255, 200, 200, 200, 255, 10, 10, 10, 255, 200, 200, 200, 255]\<rparr> \<and>
   adaptiveThreshold
     \<lparr>width = 2, height = 2,
      data = [10, 10, 10, 255, 200, 200, 200, 255, 10, 10, 10, 255, 200, 200, 200, 255]\<rparr> 3 5 =
     \<lparr>width = 2, height = 2,
      data = [0, 0, 0, 255, 255, 255, 255, 255, 0, 0, 0, 255, 255, 255, 255, 255]\<rparr>"
proof -
  let ?x = "\<lparr>width = 2, height = 2,
      data = [10, 10, 10, 255, 200, 200, 200, 255, 10, 10, 10, 255, 200, 200, 200, 255 :: byte]\<rparr>"
  have wf: "well_formed ?x" by (simp add: well_formed_def)
  have naive: "adaptiveThreshold_naive ?x 3 5 =
     \<lparr>width = 2, height = 2,
      data = [0, 0, 0, 255, 255, 255, 255, 255, 0, 0, 0, 255, 255, 255, 255, 255]\<rparr>"
    by code_simp
  have "adaptiveThreshold ?x 3 5 = adaptiveThreshold_naive ?x 3 5"
    by (rule adaptiveThreshold_integral_eq_naive [OF wf])
  then show ?thesis using wf naive by (simp only: simp_thms)
qed



section \<open>Properties of the batch queue\<close>

lemma keeps_others_refl: "keeps_others i s s"
  by (simp add: keeps_others_def)

lemma keeps_others_trans:
  "keeps_others i s s' \<Longrightarrow> keeps_others i s' s'' \<Longrightarrow> keeps_others i s s''"
  unfolding keeps_others_def
  by (metis length_map nth_map)

lemma keeps_others_updateItem:
  assumes "\<And>q. item_id (u q) = item_id q"
  shows "keeps_others i s (updateItem i u s)"
  unfolding keeps_others_def updateItem_def using assms
  by (auto simp: comp_def intro!: map_cong [OF refl])

lemma keeps_others_console: "keeps_others i s (s\<lparr>console := c\<rparr>)"
  by (simp add: keeps_others_def)

lemma keeps_others_updates: "keeps_others i s (s\<lparr>document_updates := d\<rparr>)"
  by (simp add: keeps_others_def)

lemma keeps_others_step:
  assumes "keeps_others i s s'" "\<And>q. item_id (u q) = item_id q"
  shows "keeps_others i s (updateItem i u s')"
  using assms(1) keeps_others_updateItem [of u i s', OF assms(2)]
  by (rule keeps_others_trans)

lemma keeps_others_fold:
  assumes "\<And>x q. item_id (u x q) = item_id q"
  shows "keeps_others i s s' \<Longrightarrow> keeps_others i s (fold (\<lambda>x. updateItem i (u x)) xs s')"
proof (induction xs arbitrary: s')
  case Nil
  then show ?case by simp
next
  case (Cons x xs)
  have "keeps_others i s (updateItem i (u x) s')"
    using Cons.prems assms by (intro keeps_others_step) simp_all
  then show ?case using Cons.IH by simp
qed

lemma keeps_others_detectLanguage:
  "keeps_others i s s' \<Longrightarrow> keeps_others i s (fst (detectLanguage fx i s'))"
proof -
  assume a: "keeps_others i s s'"
  let ?s = "fold (\<lambda>msg. updateItem i (\<lambda>item. item\<lparr>progressMessage := Some msg\<rparr>))
      (detectLanguage_messages fx) s'"
  have f: "keeps_others i s ?s" using a by (intro keeps_others_fold) simp_all
  then have "keeps_others i s (?s\<lparr>console := console ?s @ [''Language detection failed:'']\<rparr>)"
    using keeps_others_console keeps_others_trans by blast
  then show ?thesis using f by (simp add: detectLanguage_def Let_def split: sum.splits)
qed

lemma detectLanguage_language:
  "snd (detectLanguage fx i s) = (case detectLanguage_body fx of Inl e \<Rightarrow> ''eng'' | Inr l \<Rightarrow> l)"
  by (simp add: detectLanguage_def Let_def split: sum.splits)

lemma keeps_others_upload_step:
  "keeps_others i s s' \<Longrightarrow> keeps_others i s (fst (upload_step fx s'))"
  using keeps_others_console keeps_others_trans
  by (auto simp: upload_step_def split: sum.splits)

lemma keeps_others_language_step:
  assumes "keeps_others (item_id item) s s'"
  shows "keeps_others (item_id item) s (fst (language_step g fx item s'))"
proof (cases "language item = ''auto''")
  case True
  let ?i = "item_id item"
  let ?s1 = "updateItem ?i
      (\<lambda>q. q\<lparr>progress := 10, progressMessage := Some ''Detecting language...''\<rparr>) s'"
  have 1: "keeps_others ?i s ?s1" using assms by (intro keeps_others_step) simp_all
  have 2: "keeps_others ?i s (fst (detectLanguage fx ?i ?s1))"
    using 1 by (rule keeps_others_detectLanguage)
  show ?thesis
    unfolding language_step_def Let_def using True
    by (simp add: case_prod_beta) (intro keeps_others_step 2, simp)
next
  case False
  then show ?thesis using assms by (simp add: language_step_def)
qed

lemma language_step_language:
  "fst (snd (language_step g fx item s)) = ocr_language fx item"
  by (simp add: language_step_def ocr_language_def Let_def case_prod_beta
      detectLanguage_language)

lemma keeps_others_report_progress:
  "keeps_others i s s' \<Longrightarrow> keeps_others i s (report_progress fx i l s')"
  unfolding report_progress_def case_prod_beta
  by (intro keeps_others_fold) simp_all

lemma keeps_others_console': "keeps_others i s s' \<Longrightarrow> keeps_others i s (s'\<lparr>console := c\<rparr>)"
  using keeps_others_console keeps_others_trans by blast

lemma keeps_others_updates':
  "keeps_others i s s' \<Longrightarrow> keeps_others i s (s'\<lparr>document_updates := d\<rparr>)"
  using keeps_others_updates keeps_others_trans by blast

lemmas keeps_intros =
  keeps_others_step keeps_others_report_progress keeps_others_language_step
  keeps_others_upload_step keeps_others_console' keeps_others_updates' keeps_others_refl

lemma processItem_try_keeps:
  "keeps_others (item_id item) s (fst (processItem_try g p m fx item s))"
  unfolding processItem_try_def Let_def case_prod_beta
  by (auto split: sum.splits intro!: keeps_intros)

lemma processItem_try_raises:
  "snd (processItem_try g p m fx item s) =
     (case createDocument_outcome fx of
        Inl e \<Rightarrow> Some e
      | Inr d \<Rightarrow>
          (case performOCR fx (ocr_language fx item) (queue_options p m) of
             Inl e \<Rightarrow> Some e
           | Inr r \<Rightarrow>
               (case updateDocument_outcome fx of Inl e \<Rightarrow> Some e | Inr u \<Rightarrow> None)))"
  unfolding processItem_try_def Let_def case_prod_beta language_step_language
  by (simp split: sum.splits)

lemma processItem_keeps:
  "keeps_others (item_id item) s (processItem g p m fx item s)"
proof (cases "processItem_try g p m fx item s")
  case (Pair s' r)
  then have k: "keeps_others (item_id item) s s'"
    using processItem_try_keeps [of item s g p m fx] by simp
  show ?thesis
  proof (cases r)
    case None
    then show ?thesis using Pair k by (simp add: processItem_def)
  next
    case (Some e)
    then show ?thesis using Pair k
      by (simp add: processItem_def) (intro keeps_intros, simp_all)
  qed
qed

lemma updateItem_nth:
  "j < length (items s) \<Longrightarrow>
   items (updateItem i u s) ! j = (if item_id (items s ! j) = i then u (items s ! j) else items s ! j)"
  by (simp add: updateItem_def)

lemma processItem_failed:
  assumes r: "snd (processItem_try g p m fx item s) = Some e"
    and j: "j < length (items s)" "item_id (items s ! j) = item_id item"
  shows "status (items (processItem g p m fx item s) ! j) = Failed \<and>
     progress (items (processItem g p m fx item s) ! j) = 0 \<and>
     error (items (processItem g p m fx item s) ! j) = Some (failure_text e) \<and>
     progressMessage (items (processItem g p m fx item s) ! j) = None"
proof -
  obtain s' where t: "processItem_try g p m fx item s = (s', Some e)"
    using r by (cases "processItem_try g p m fx item s") simp
  have k: "keeps_others (item_id item) s s'"
    using processItem_try_keeps [of item s g p m fx] t by simp
  then have len: "length (items s') = length (items s)"
    unfolding keeps_others_def using length_map by metis
  have "item_id (items s' ! j) = item_id (items s ! j)"
    using k j(1) len unfolding keeps_others_def by (metis nth_map)
  then have id: "item_id (items s' ! j) = item_id item" using j(2) by simp
  have "j < length (items (s'\<lparr>console := console s' @ [''Processing failed:'']\<rparr>))"
    using j(1) len by simp
  then show ?thesis
    unfolding processItem_def t using id
    by (simp add: updateItem_nth)
qed

lemma processItem_try_success:
  assumes "snd (processItem_try g p m fx item s) = None"
  shows "\<exists>s' c d. keeps_others (item_id item) s s' \<and>
     fst (processItem_try g p m fx item s) =
       updateItem (item_id item)
         (\<lambda>i. i\<lparr>status := Completed, progress := 100, confidence := c,
                detectedLanguage := d, progressMessage := None\<rparr>) s'"
proof -
  from assms obtain doc r where
    o: "createDocument_outcome fx = Inr doc"
      "performOCR fx (ocr_language fx item) (queue_options p m) = Inr r"
      "updateDocument_outcome fx = Inr ()"
    unfolding processItem_try_raises by (auto split: sum.splits)
  let ?s' = "report_progress fx (item_id item) (ocr_language fx item)
      (updateItem (item_id item)
        (\<lambda>i. i\<lparr>progress := 20, progressMessage := Some ''Preprocessing...''\<rparr>)
        (fst (language_step g fx item
          (fst (upload_step fx
            (updateItem (item_id item)
              (\<lambda>i. i\<lparr>progress := 5, progressMessage := Some ''Uploading file...''\<rparr>)
              (updateItem (item_id item)
                (\<lambda>i. i\<lparr>status := Processing, progress := 0,
                       progressMessage := Some ''Starting...''\<rparr>) s)))))))"
  have k: "keeps_others (item_id item) s ?s'"
    by (intro keeps_intros) simp_all
  have "fst (processItem_try g p m fx item s) =
      updateItem (item_id item)
        (\<lambda>i. i\<lparr>status := Completed, progress := 100, confidence := Some (ocr_confidence r),
               detectedLanguage := snd (snd (language_step g fx item
                 (fst (upload_step fx
                   (updateItem (item_id item)
                     (\<lambda>i. i\<lparr>progress := 5, progressMessage := Some ''Uploading file...''\<rparr>)
                     (updateItem (item_id item)
                       (\<lambda>i. i\<lparr>status := Processing, progress := 0,
                              progressMessage := Some ''Starting...''\<rparr>) s)))))),
               progressMessage := None\<rparr>)
        (?s'\<lparr>document_updates := document_updates ?s' @
           [\<lparr>extracted_text = ocr_text r, update_confidence = ocr_confidence r,
             original_file_url = snd (upload_step fx
               (updateItem (item_id item)
                 (\<lambda>i. i\<lparr>progress := 5, progressMessage := Some ''Uploading file...''\<rparr>)
                 (updateItem (item_id item)
                   (\<lambda>i. i\<lparr>status := Processing, progress := 0,
                          progressMessage := Some ''Starting...''\<rparr>) s)))\<rparr>]\<rparr>)"
    unfolding processItem_try_def Let_def case_prod_beta language_step_language o
    by simp
  moreover have "keeps_others (item_id item) s (?s'\<lparr>document_updates := document_updates ?s' @
           [\<lparr>extracted_text = ocr_text r, update_confidence = ocr_confidence r,
             original_file_url = snd (upload_step fx
               (updateItem (item_id item)
                 (\<lambda>i. i\<lparr>progress := 5, progressMessage := Some ''Uploading file...''\<rparr>)
                 (updateItem (item_id item)
                   (\<lambda>i. i\<lparr>status := Processing, progress := 0,
                          progressMessage := Some ''Starting...''\<rparr>) s)))\<rparr>]\<rparr>)"
    using k by (rule keeps_others_updates')
  ultimately show ?thesis by blast
qed

lemma processItem_completed:
  assumes r: "snd (processItem_try g p m fx item s) = None"
    and j: "j < length (items s)" "item_id (items s ! j) = item_id item"
  shows "status (items (processItem g p m fx item s) ! j) = Completed \<and>
     progress (items (processItem g p m fx item s) ! j) = 100 \<and>
     progressMessage (items (processItem g p m fx item s) ! j) = None"
proof -
  obtain s' c d where k: "keeps_others (item_id item) s s'"
    and f: "fst (processItem_try g p m fx item s) =
       updateItem (item_id item)
         (\<lambda>i. i\<lparr>status := Completed, progress := 100, confidence := c,
                detectedLanguage := d, progressMessage := None\<rparr>) s'"
    using processItem_try_success [OF r] by blast
  have len: "length (items s') = length (items s)"
    using k unfolding keeps_others_def using length_map by metis
  have "item_id (items s' ! j) = item_id (items s ! j)"
    using k j(1) len unfolding keeps_others_def by (metis nth_map)
  then have id: "item_id (items s' ! j) = item_id item" using j(2) by simp
  have "processItem g p m fx item s = fst (processItem_try g p m fx item s)"
    using r by (cases "processItem_try g p m fx item s") (simp add: processItem_def)
  then show ?thesis unfolding f using id j(1) len by (simp add: updateItem_nth)
qed

lemmas queue_evals =
  processItem_def processItem_try_def upload_step_def language_step_def report_progress_def
  performOCR_def updateItem_def failure_text_def example_item_def example_queue_def
  example_effects_def queue_options_def

text \<open>
  Claim C8, as stated, fails on the code.  A failed upload is an error raised while
  the item is processed, and \<open>processItem\<close> recovers from it: the item completes, no
  error is put on it, and the only trace is a line on the console.  Nor does the
  error kept on a failed item say which stage failed: a rejected \<open>createDocument\<close>
  and a rejected \<open>updateDocument\<close> leave the same items.
\<close>

theorem upload_failure_is_recovered:
  "map status (items (processItem id getDefaultPrintedOptions Printed
      (example_effects\<lparr>uploadFile_outcome := Inl (Error ''storage unavailable'')\<rparr>)
      example_item example_queue)) = [Completed, Pending] \<and>
   map error (items (processItem id getDefaultPrintedOptions Printed
      (example_effects\<lparr>uploadFile_outcome := Inl (Error ''storage unavailable'')\<rparr>)
      example_item example_queue)) = [None, None] \<and>
   console (processItem id getDefaultPrintedOptions Printed
      (example_effects\<lparr>uploadFile_outcome := Inl (Error ''storage unavailable'')\<rparr>)
      example_item example_queue) = [''File upload failed, continuing without storage:''] \<and>
   items (processItem id getDefaultPrintedOptions Printed
      (example_effects\<lparr>createDocument_outcome := Inl NonError\<rparr>)
      example_item example_queue) =
   items (processItem id getDefaultPrintedOptions Printed
      (example_effects\<lparr>updateDocument_outcome := Inl NonError\<rparr>)
      example_item example_queue)"
  by (simp add: queue_evals)

text \<open>
  Claim C8, amended.  The \<open>try\<close> block of \<open>processItem\<close> throws exactly when
  \<open>createDocument\<close>, \<open>performOCR\<close> or \<open>updateDocument\<close> throws, whatever the upload and
  the language detection do.  When it throws, every item with the id of the
  processed one ends with status \<open>failed\<close>, progress 0, no progress message and the
  error text of the thrown value: its message, which for \<open>performOCR\<close> starts with
  \<open>OCR failed: \<close>, or \<open>Processing failed\<close> for a value that is no \<open>Error\<close>.  When it does
  not throw, they end with status \<open>completed\<close>.  In both cases the queue keeps its
  items in their places, and those with another id are unchanged.
\<close>

theorem processItem_error_handling:
  "snd (processItem_try g p m fx item s) =
     (case createDocument_outcome fx of
        Inl e \<Rightarrow> Some e
      | Inr d \<Rightarrow>
          (case performOCR fx (ocr_language fx item) (queue_options p m) of
             Inl e \<Rightarrow> Some e
           | Inr r \<Rightarrow>
               (case updateDocument_outcome fx of Inl e \<Rightarrow> Some e | Inr u \<Rightarrow> None))) \<and>
   (snd (processItem_try g p m fx item s) = Some e \<and>
    j < length (items s) \<and> item_id (items s ! j) = item_id item \<longrightarrow>
      status (items (processItem g p m fx item s) ! j) = Failed \<and>
      progress (items (processItem g p m fx item s) ! j) = 0 \<and>
      error (items (processItem g p m fx item s) ! j) = Some (failure_text e) \<and>
      progressMessage (items (processItem g p m fx item s) ! j) = None) \<and>
   (snd (processItem_try g p m fx item s) = None \<and>
    j < length (items s) \<and> item_id (items s ! j) = item_id item \<longrightarrow>
      status (items (processItem g p m fx item s) ! j) = Completed) \<and>
   keeps_others (item_id item) s (processItem g p m fx item s) \<and>
   (performOCR fx l opts = Inl e' \<longrightarrow> (\<exists>msg. e' = Error (''OCR failed: '' @ msg)))"
proof (intro conjI impI)
  show "snd (processItem_try g p m fx item s) =
     (case createDocument_outcome fx of
        Inl e \<Rightarrow> Some e
      | Inr d \<Rightarrow>
          (case performOCR fx (ocr_language fx item) (queue_options p m) of
             Inl e \<Rightarrow> Some e
           | Inr r \<Rightarrow>
               (case updateDocument_outcome fx of Inl e \<Rightarrow> Some e | Inr u \<Rightarrow> None)))"
    by (rule processItem_try_raises)
next
  assume a: "snd (processItem_try g p m fx item s) = Some e \<and>
    j < length (items s) \<and> item_id (items s ! j) = item_id item"
  then have f: "status (items (processItem g p m fx item s) ! j) = Failed \<and>
      progress (items (processItem g p m fx item s) ! j) = 0 \<and>
      error (items (processItem g p m fx item s) ! j) = Some (failure_text e) \<and>
      progressMessage (items (processItem g p m fx item s) ! j) = None"
    by (intro processItem_failed) simp_all
  show "status (items (processItem g p m fx item s) ! j) = Failed" using f by simp
  show "progress (items (processItem g p m fx item s) ! j) = 0" using f by simp
  show "error (items (processItem g p m fx item s) ! j) = Some (failure_text e)" using f by simp
  show "progressMessage (items (processItem g p m fx item s) ! j) = None" using f by simp
next
  assume "snd (processItem_try g p m fx item s) = None \<and>
    j < length (items s) \<and> item_id (items s ! j) = item_id item"
  then show "status (items (processItem g p m fx item s) ! j) = Completed"
    using processItem_completed [of g p m fx item s j] by simp
next
  show "keeps_others (item_id item) s (processItem g p m fx item s)"
    by (rule processItem_keeps)
next
  assume "performOCR fx l opts = Inl e'"
  then show "\<exists>msg. e' = Error (''OCR failed: '' @ msg)"
    by (auto simp: performOCR_def split: sum.splits)
qed

theorem processItem_error_handling_witness:
  "snd (processItem_try id getDefaultPrintedOptions Printed
      (example_effects\<lparr>performOCR_body := \<lambda>lang options. Inl (Error ''Failed to load image'')\<rparr>)
      example_item example_queue) = Some (Error ''OCR failed: Failed to load image'') \<and>
   status (items (processItem id getDefaultPrintedOptions Printed
      (example_effects\<lparr>performOCR_body := \<lambda>lang options. Inl (Error ''Failed to load image'')\<rparr>)
      example_item example_queue) ! 0) = Failed \<and>
   error (items (processItem id getDefaultPrintedOptions Printed
      (example_effects\<lparr>performOCR_body := \<lambda>lang options. Inl (Error ''Failed to load image'')\<rparr>)
      example_item example_queue) ! 0) = Some ''OCR failed: Failed to load image'' \<and>
   items (processItem id getDefaultPrintedOptions Printed
      (example_effects\<lparr>performOCR_body := \<lambda>lang options. Inl (Error ''Failed to load image'')\<rparr>)
      example_item example_queue) ! 1 = items example_queue ! 1 \<and>
   status (items (processItem id getDefaultPrintedOptions Printed example_effects
      example_item example_queue) ! 0) = Completed"
proof -
  let ?fx = "example_effects\<lparr>performOCR_body :=
      \<lambda>lang options. Inl (Error ''Failed to load image'')\<rparr>"
  let ?run = "processItem id getDefaultPrintedOptions Printed"
  let ?attempt = "processItem_try id getDefaultPrintedOptions Printed"
  let ?e = "Error ''OCR failed: Failed to load image''"
  note fails = processItem_error_handling
    [of id getDefaultPrintedOptions Printed ?fx example_item example_queue ?e 0]
  note succeeds = processItem_error_handling
    [of id getDefaultPrintedOptions Printed example_effects example_item example_queue ?e 0]
  have thrown: "snd (?attempt ?fx example_item example_queue) = Some ?e"
    unfolding fails [THEN conjunct1]
    by (simp add: performOCR_def example_effects_def)
  have none: "snd (?attempt example_effects example_item example_queue) = None"
    unfolding succeeds [THEN conjunct1]
    by (simp add: performOCR_def example_effects_def)
  have here: "0 < length (items example_queue) \<and>
      item_id (items example_queue ! 0) = item_id example_item"
    by (simp add: example_queue_def)
  have other: "1 < length (items example_queue)"
    "item_id (items example_queue ! 1) \<noteq> item_id example_item"
    by (simp_all add: example_queue_def example_item_def)
  have failed: "status (items (?run ?fx example_item example_queue) ! 0) = Failed \<and>
      progress (items (?run ?fx example_item example_queue) ! 0) = 0 \<and>
      error (items (?run ?fx example_item example_queue) ! 0) = Some (failure_text ?e) \<and>
      progressMessage (items (?run ?fx example_item example_queue) ! 0) = None"
    by (rule mp [OF fails [THEN conjunct2, THEN conjunct1]]) (rule conjI [OF thrown here])
  have completed: "status (items (?run example_effects example_item example_queue) ! 0) = Completed"
    by (rule mp [OF succeeds [THEN conjunct2, THEN conjunct2, THEN conjunct1]])
      (rule conjI [OF none here])
  have "keeps_others (item_id example_item) example_queue (?run ?fx example_item example_queue)"
    by (rule fails [THEN conjunct2, THEN conjunct2, THEN conjunct2, THEN conjunct1])
  then have unchanged: "items (?run ?fx example_item example_queue) ! 1 = items example_queue ! 1"
    unfolding keeps_others_def using other by blast
  have message: "error (items (?run ?fx example_item example_queue) ! 0) =
      Some ''OCR failed: Failed to load image''"
    using failed by (simp add: failure_text_def)
  show ?thesis
    by (intro conjI) (rule thrown conjunct1 [OF failed] message unchanged completed)+
qed

end

